theory Spec2Isabelle
  imports Main "HOL-Library.Word"
begin

section \<open>Errors\<close>

text \<open>
  Go errors as values.  \<open>Canceled\<close> and \<open>DeadlineExceeded\<close> are the two errors a
  \<open>context.Context\<close> reports once it is done; \<open>EOF\<close> is \<open>io.EOF\<close> and \<open>ErrUnexpectedEOF\<close> is
  \<open>io.ErrUnexpectedEOF\<close>;
  \<open>Wrap msg e\<close> is \<open>errors.Wrap(e, msg)\<close> (and \<open>errors.Wrapf\<close>, the
  format string kept as it is written); \<open>Failure msg\<close> is any other error an external
  call reports.
\<close>

datatype error =
    Canceled
  | DeadlineExceeded
  | EOF
  | ErrUnexpectedEOF
  | ErrNotImplemented
  | ErrExist
  | Wrap string error
  | Failure string

section \<open>The single-mount manager (package snapshot, localMounter)\<close>

text \<open>\<open>mount.Mount\<close> of containerd: the three fields the mounter reads.\<close>

record mount =
  Type :: string
  Source :: string
  Options :: "string list"

text \<open>
  \<open>localMounter\<close>.  \<open>mounts\<close> is a Go slice that may be nil (\<open>None\<close>);
  \<open>release\<close> is a func that may be nil (\<open>None\<close>), and otherwise returns the
  given result when called; \<open>target\<close> is the empty string while nothing is mounted.
  The mutex guards each call as a whole and is not modelled: calls are taken one at a time.
\<close>

record localMounter =
  mounts :: "mount list option"
  release :: "error option option"
  target :: string

text \<open>
  The part of the host the mounter touches: the temporary directories that exist and the
  paths something is mounted at.
\<close>

record host =
  dirs :: "string list"
  mounted :: "string list"

text \<open>
  The outcomes of the external calls of one \<open>Mount\<close>/\<open>Unmount\<close>:
  \<open>lm.mountable.Mount()\<close>, the name \<open>ioutil.TempDir\<close> settles on (or its error),
  \<open>m.Mount(dir)\<close>, \<open>mount.Unmount(target, 0)\<close> and \<open>os.RemoveAll\<close>.
\<close>

record mount_env =
  mountable_Mount :: "error + (mount list option \<times> error option option)"
  tempdir_outcome :: "error + string"
  m_Mount :: "error option"
  mount_Unmount :: "error option"
  os_RemoveAll :: "error option"

text \<open>
  \<open>ioutil.TempDir\<close> creates the directory with \<open>os.Mkdir\<close>, which refuses a path that
  exists; the directory it returns is therefore new.
\<close>

definition TempDir :: "mount_env \<Rightarrow> host \<Rightarrow> (error + string) \<times> host" where
  "TempDir env h =
    (case tempdir_outcome env of
       Inl e \<Rightarrow> (Inl e, h)
     | Inr d \<Rightarrow> if d \<in> set (dirs h) then (Inl ErrExist, h)
                else (Inr d, h\<lparr>dirs := d # dirs h\<rparr>))"

text \<open>
  \<open>os.RemoveAll(dir)\<close>: when it fails the directory is still there.  Its result is
  discarded by both callers, so only the host after the call is returned.
\<close>

definition RemoveAll :: "mount_env \<Rightarrow> string \<Rightarrow> host \<Rightarrow> host" where
  "RemoveAll env d h =
    (case os_RemoveAll env of
       None \<Rightarrow> h\<lparr>dirs := removeAll d (dirs h)\<rparr>
     | Some err \<Rightarrow> h)"

text \<open>The first block of \<open>Mount\<close>: fetch the mounts once, while \<open>lm.mounts\<close> is nil.\<close>

definition fetch_mounts :: "mount_env \<Rightarrow> localMounter \<Rightarrow> error + localMounter" where
  "fetch_mounts env lm =
    (case mounts lm of
       None \<Rightarrow> (case mountable_Mount env of
                   Inl err \<Rightarrow> Inl err
                 | Inr (ms, rel) \<Rightarrow> Inr (lm\<lparr>mounts := ms, release := rel\<rparr>))
     | Some ms \<Rightarrow> Inr lm)"

text \<open>The loop over \<open>m.Options\<close> looking for \<open>"ro"\<close>.\<close>

definition has_ro :: "mount \<Rightarrow> bool" where
  "has_ro m = list_ex (\<lambda>opt. opt = ''ro'') (Options m)"

definition is_bind :: "mount \<Rightarrow> bool" where
  "is_bind m = (Type m = ''bind'' \<or> Type m = ''rbind'')"

text \<open>\<open>localMounter.Mount\<close>: the returned path and error, the mounter and the host after.\<close>

definition Mount ::
  "mount_env \<Rightarrow> localMounter \<Rightarrow> host \<Rightarrow> (string \<times> error option) \<times> localMounter \<times> host" where
  "Mount env lm h =
    (case fetch_mounts env lm of
       Inl err \<Rightarrow> (('''', Some err), lm, h)
     | Inr lm1 \<Rightarrow>
        (case mounts lm1 of
           Some [m] \<Rightarrow>
             if is_bind m \<and> \<not> has_ro m then ((Source m, None), lm1, h)
             else
               (case TempDir env h of
                  (Inl err, h1) \<Rightarrow>
                    (('''', Some (Wrap ''failed to create temp dir'' err)), lm1, h1)
                | (Inr dir, h1) \<Rightarrow>
                    (case m_Mount env of
                       Some err \<Rightarrow>
                         (('''', Some (Wrap ''failed to mount in-place: %v'' err)),
                          lm1, RemoveAll env dir h1)
                     | None \<Rightarrow>
                         ((dir, None), lm1\<lparr>target := dir\<rparr>,
                          h1\<lparr>mounted := dir # mounted h1\<rparr>)))
         | _ \<Rightarrow>
             (('''', Some (Wrap ''request to mount %d layers, only 1 is supported''
                             ErrNotImplemented)), lm1, h)))"

text \<open>\<open>localMounter.Unmount\<close>.\<close>

definition Unmount ::
  "mount_env \<Rightarrow> localMounter \<Rightarrow> host \<Rightarrow> error option \<times> localMounter \<times> host" where
  "Unmount env lm h =
    (if target lm \<noteq> '''' \<and> mount_Unmount env \<noteq> None then (mount_Unmount env, lm, h)
     else
       let (lm1, h1) =
             (if target lm \<noteq> ''''
              then (lm\<lparr>target := ''''\<rparr>,
                    RemoveAll env (target lm)
                      (h\<lparr>mounted := removeAll (target lm) (mounted h)\<rparr>))
              else (lm, h))
       in ((case release lm1 of Some r \<Rightarrow> r | None \<Rightarrow> None), lm1, h1))"

text \<open>
  While a target is recorded, its directory exists: \<open>Mount\<close> records only a directory it
  has just created, and only \<open>Unmount\<close> removes the directory of a recorded target.
\<close>

definition target_exists :: "localMounter \<Rightarrow> host \<Rightarrow> bool" where
  "target_exists lm h = (target lm = '''' \<or> target lm \<in> set (dirs h))"

subsection \<open>Concrete calls of the mounter\<close>

definition overlay_mount :: mount where
  "overlay_mount = \<lparr>Type = ''windows-layer'', Source = ''C:/snapshots/42'', Options = []\<rparr>"

definition bind_mount :: mount where
  "bind_mount = \<lparr>Type = ''bind'', Source = ''C:/data'', Options = [''rw'']\<rparr>"

definition ro_bind_mount :: mount where
  "ro_bind_mount = \<lparr>Type = ''rbind'', Source = ''C:/data'', Options = [''rbind'', ''ro'']\<rparr>"

definition fresh_mounter :: localMounter where
  "fresh_mounter = \<lparr>mounts = None, release = None, target = ''''\<rparr>"

definition empty_host :: host where
  "empty_host = \<lparr>dirs = [], mounted = []\<rparr>"

text \<open>An environment in which the mountable yields the given mounts and every call succeeds.\<close>

definition ok_env :: "mount list \<Rightarrow> string \<Rightarrow> mount_env" where
  "ok_env ms d = \<lparr>mountable_Mount = Inr (Some ms, Some None), tempdir_outcome = Inr d,
                  m_Mount = None, mount_Unmount = None, os_RemoveAll = None\<rparr>"

text \<open>An environment in which the temporary directory cannot be created.\<close>

definition no_tempdir_env :: mount_env where
  "no_tempdir_env = \<lparr>mountable_Mount = Inr (Some [overlay_mount], Some None),
                     tempdir_outcome = Inl (Failure ''disk full''),
                     m_Mount = None, mount_Unmount = None, os_RemoveAll = None\<rparr>"

text \<open>An environment in which the directory is created and the in-place mount fails.\<close>

definition mount_fails_env :: mount_env where
  "mount_fails_env = \<lparr>mountable_Mount = Inr (Some [overlay_mount], Some None),
                      tempdir_outcome = Inr ''T1'',
                      m_Mount = Some (Failure ''access denied''), mount_Unmount = None,
                      os_RemoveAll = None\<rparr>"

text \<open>
  An environment in which the directory is created, the in-place mount fails and the
  directory cannot be removed afterwards.
\<close>

definition cleanup_fails_env :: mount_env where
  "cleanup_fails_env = \<lparr>mountable_Mount = Inr (Some [overlay_mount], Some None),
                        tempdir_outcome = Inr ''T1'',
                        m_Mount = Some (Failure ''access denied''), mount_Unmount = None,
                        os_RemoveAll = Some (Failure ''sharing violation'')\<rparr>"

text \<open>The mounter after one successful \<open>Mount\<close> of \<open>overlay_mount\<close> at \<open>T0\<close>.\<close>

definition mounted_mounter :: localMounter where
  "mounted_mounter = \<lparr>mounts = Some [overlay_mount], release = Some None, target = ''T0''\<rparr>"

definition mounted_host :: host where
  "mounted_host = \<lparr>dirs = [''T0''], mounted = [''T0'']\<rparr>"

section \<open>Paths\<close>

text \<open>
  The importer reads archive names with Go's \<open>path\<close> package (separator \<open>/\<close>); the
  exporter builds them with \<open>path/filepath\<close>, which in these files (built for Windows
  only) accepts both \<open>/\<close> and the backslash as separators and writes the backslash.
  Both packages share one algorithm, given here once with the separator test and the
  separator written as parameters.
\<close>

definition slash :: char where
  "slash = CHR ''/''"

definition bslash :: char where
  "bslash = CHR 0x5C"

definition is_slash :: "char \<Rightarrow> bool" where
  "is_slash c = (c = slash)"

text \<open>\<open>os.IsPathSeparator\<close> on Windows.\<close>

definition IsPathSeparator :: "char \<Rightarrow> bool" where
  "IsPathSeparator c = (c = slash \<or> c = bslash)"

text \<open>\<open>strings.HasPrefix\<close>.\<close>

definition HasPrefix :: "string \<Rightarrow> string \<Rightarrow> bool" where
  "HasPrefix s pre = (take (length pre) s = pre)"

text \<open>The elements of a path: the runs between separators, empty runs included.\<close>

fun elements :: "(char \<Rightarrow> bool) \<Rightarrow> string \<Rightarrow> string list" where
  "elements sep [] = [[]]"
| "elements sep (c # cs) =
    (if sep c then [] # elements sep cs
     else (case elements sep cs of
             x # xs \<Rightarrow> (c # x) # xs
           | [] \<Rightarrow> [[c]]))"

text \<open>\<open>strings.Join(elems, sep)\<close> for a one-character separator.\<close>

fun join_elems :: "char \<Rightarrow> string list \<Rightarrow> string" where
  "join_elems s [] = []"
| "join_elems s [x] = x"
| "join_elems s (x # y # ys) = x @ s # join_elems s (y # ys)"

text \<open>
  One step of \<open>Clean\<close> on the elements written so far (the last one first): empty
  elements and \<open>.\<close> are dropped; \<open>..\<close> removes the element before it when there is one
  that is not itself \<open>..\<close>, is dropped at the root of a rooted path, and is kept
  otherwise; any other element is kept.
\<close>

definition clean_step :: "bool \<Rightarrow> string list \<Rightarrow> string \<Rightarrow> string list" where
  "clean_step rooted st e =
    (if e = [] \<or> e = ''.'' then st
     else if e = ''..'' then
       (case st of
          t # ts \<Rightarrow> if t \<noteq> ''..'' then ts else if rooted then st else e # st
        | [] \<Rightarrow> if rooted then [] else [e])
     else e # st)"

text \<open>The cleaned path written out: the root if any, the elements, or \<open>.\<close> if nothing.\<close>

definition render :: "bool \<Rightarrow> char \<Rightarrow> string list \<Rightarrow> string" where
  "render rooted out xs =
    (if rooted then out # join_elems out xs
     else if xs = [] then ''.'' else join_elems out xs)"

definition Clean :: "(char \<Rightarrow> bool) \<Rightarrow> char \<Rightarrow> string \<Rightarrow> string" where
  "Clean sep out p =
    (if p = [] then ''.''
     else render (sep (hd p)) out (rev (foldl (clean_step (sep (hd p))) [] (elements sep p))))"

text \<open>The path cut after its last separator: \<open>(p[:i+1], p[i+1:])\<close>.\<close>

definition split_last :: "(char \<Rightarrow> bool) \<Rightarrow> string \<Rightarrow> string \<times> string" where
  "split_last sep p =
    (rev (dropWhile (\<lambda>c. \<not> sep c) (rev p)), rev (takeWhile (\<lambda>c. \<not> sep c) (rev p)))"

text \<open>
  \<open>Base\<close>: \<open>.\<close> for the empty path; trailing separators are stripped, then the last
  element is taken; a path of separators only gives the separator.
\<close>

definition Base :: "(char \<Rightarrow> bool) \<Rightarrow> char \<Rightarrow> string \<Rightarrow> string" where
  "Base sep out p =
    (if p = [] then ''.''
     else let b = snd (split_last sep (rev (dropWhile sep (rev p))))
          in if b = [] then [out] else b)"

definition Dir :: "(char \<Rightarrow> bool) \<Rightarrow> char \<Rightarrow> string \<Rightarrow> string" where
  "Dir sep out p = Clean sep out (fst (split_last sep p))"

text \<open>
  \<open>Join\<close>: empty elements before the first non-empty one are skipped, the rest is
  joined with the separator and cleaned; the empty string if there is nothing to join.
\<close>

definition Join :: "(char \<Rightarrow> bool) \<Rightarrow> char \<Rightarrow> string list \<Rightarrow> string" where
  "Join sep out elems =
    (case dropWhile (\<lambda>e. e = []) elems of
       [] \<Rightarrow> []
     | es \<Rightarrow> Clean sep out (join_elems out es))"

subsection \<open>Package \<open>path\<close>\<close>

definition path_Clean :: "string \<Rightarrow> string" where
  "path_Clean = Clean is_slash slash"

definition path_Base :: "string \<Rightarrow> string" where
  "path_Base = Base is_slash slash"

definition path_Dir :: "string \<Rightarrow> string" where
  "path_Dir = Dir is_slash slash"

definition path_Join :: "string list \<Rightarrow> string" where
  "path_Join = Join is_slash slash"

subsection \<open>Package \<open>path/filepath\<close> on Windows\<close>

text \<open>
  For paths without a volume name (a drive letter or a UNC prefix): the names a layer
  reader yields and the names in an archive are relative to the layer root.  The volume
  handling of \<open>filepath\<close> is not modelled; \<open>volumeless\<close> is the (conservative) test the
  theorems on native paths assume.
\<close>

definition volumeless :: "string \<Rightarrow> bool" where
  "volumeless p =
    (case p of
       a # b # _ \<Rightarrow> \<not> (b = CHR '':'' \<or> (IsPathSeparator a \<and> (IsPathSeparator b \<or> b = CHR ''?'')))
     | _ \<Rightarrow> True)"

definition filepath_Clean :: "string \<Rightarrow> string" where
  "filepath_Clean = Clean IsPathSeparator bslash"

definition filepath_Base :: "string \<Rightarrow> string" where
  "filepath_Base = Base IsPathSeparator bslash"

definition filepath_Dir :: "string \<Rightarrow> string" where
  "filepath_Dir = Dir IsPathSeparator bslash"

definition filepath_Join :: "string list \<Rightarrow> string" where
  "filepath_Join = Join IsPathSeparator bslash"

definition filepath_Split :: "string \<Rightarrow> string \<times> string" where
  "filepath_Split = split_last IsPathSeparator"

definition ToSlash :: "string \<Rightarrow> string" where
  "ToSlash p = map (\<lambda>c. if c = bslash then slash else c) p"

definition FromSlash :: "string \<Rightarrow> string" where
  "FromSlash p = map (\<lambda>c. if c = slash then bslash else c) p"

section \<open>Whiteouts\<close>

text \<open>The constant of import.go.\<close>

definition whiteoutPrefix :: string where
  "whiteoutPrefix = ''.wh.''"

text \<open>
  The name \<open>writeTarFromLayer\<close> gives the header of a whiteout:
  \<open>filepath.ToSlash(filepath.Join(dir, whiteoutPrefix+base))\<close>, with
  \<open>dir = filepath.Dir(name)\<close> and \<open>base = filepath.Base(name)\<close>.
\<close>

definition whiteout_name :: "string \<Rightarrow> string \<Rightarrow> string" where
  "whiteout_name dir base = ToSlash (filepath_Join [dir, whiteoutPrefix @ base])"

definition export_whiteout_name :: "string \<Rightarrow> string" where
  "export_whiteout_name name = whiteout_name (filepath_Dir name) (filepath_Base name)"

text \<open>
  The test and the decomposition at the head of \<open>ImportLayer\<close>'s loop body: when the
  base of the name has the prefix, \<open>dir\<close> and \<open>originalBase\<close>; otherwise the entry is
  not a whiteout and the name is left alone.
\<close>

definition whiteout_decode :: "string \<Rightarrow> (string \<times> string) option" where
  "whiteout_decode hname =
    (let base = path_Base hname in
     if HasPrefix base whiteoutPrefix
     then Some (path_Dir hname, drop (length whiteoutPrefix) base)
     else None)"

text \<open>\<open>originalPath\<close>, converted for the writer.\<close>

definition removed_path :: "string \<times> string \<Rightarrow> string" where
  "removed_path db = FromSlash (path_Join [fst db, snd db])"

section \<open>The external collaborators\<close>

type_synonym byte = "8 word"

text \<open>\<open>winio.FileBasicInfo\<close>: the per-file metadata the driver and the codec exchange.\<close>

record FileBasicInfo =
  CreationTime :: "64 word"
  LastAccessTime :: "64 word"
  LastWriteTime :: "64 word"
  ChangeTime :: "64 word"
  FileAttributes :: "32 word"

text \<open>
  \<open>tar.Header\<close>: the fields read in these files, and \<open>Metadata\<close> for the times
  and PAX records in which \<open>backuptar\<close> keeps the file information, taken together.
\<close>

record Header =
  Name :: string
  Typeflag :: char
  Linkname :: string
  Size :: "64 word"
  Metadata :: FileBasicInfo

definition TypeReg :: char where
  "TypeReg = CHR ''0''"

definition TypeLink :: char where
  "TypeLink = CHR ''1''"

text \<open>
  Every call that leaves the two functions is an event: the driver
  (\<open>hcsshim\<close>: the layer writer and reader and the layer lifecycle), the backup file
  (\<open>os.Create\<close>, \<open>winio.BackupFileWriter\<close>) and the archive writer
  (\<open>tar.Writer\<close>, \<open>backuptar.WriteTarFileFromBackupStream\<close>, whose last argument
  here is the backup stream it reads from the layer reader).  A run is the list of its
  events in order.
\<close>

datatype event =
    NewLayerWriter string string "string list"
  | Add string FileBasicInfo
  | AddLink string string
  | Remove string
  | Write "byte list"
  | Close
  | Create string
  | BackupWrite "byte list"
  | BackupWriterClose
  | FileClose
  | ActivateLayer string
  | DeactivateLayer string
  | PrepareLayer string "string list"
  | UnprepareLayer string
  | NewLayerReader string "string list"
  | ReaderClose
  | WriteHeader Header
  | WriteTarFileFromBackupStream string "64 word" FileBasicInfo "byte list"
  | TarClose

text \<open>
  The environment decides whether a call fails, from the call and everything that
  happened before it.
\<close>

type_synonym env = "event list \<Rightarrow> event \<Rightarrow> error option"

definition call :: "env \<Rightarrow> event \<Rightarrow> event list \<Rightarrow> error option \<times> event list" where
  "call env ev tr = (env tr ev, tr @ [ev])"

text \<open>
  \<open>context.Context\<close>, as the loops use it: \<open>Done c i\<close> tells whether the poll at the head
  of iteration \<open>i\<close> (counted from 0) finds the context done; \<open>ctx_Err\<close> is what
  \<open>ctx.Err()\<close> then returns.
\<close>

record ctx =
  Done :: "nat \<Rightarrow> bool"
  deadline :: bool

definition ctx_Err :: "ctx \<Rightarrow> error" where
  "ctx_Err c = (if deadline c then DeadlineExceeded else Canceled)"


text \<open>
  What the archive reader and the body codec present for one iteration of the import
  loop: the header; the \<open>Write\<close> calls \<open>backuptar.WriteBackupStreamFromTarFile\<close> issues
  for the body of the entry, in order; and the codec's own error, if the body is malformed
  or truncated.  An archive is a list of entries and the error that \<open>tr.Next()\<close> returns
  after the last one, \<open>io.EOF\<close> at the end of a complete archive.
\<close>

record entry =
  hdr :: Header
  chunks :: "byte list list"
  codec_err :: "error option"

text \<open>The error of the codec's final \<open>t.Next()\<close> on the rest of the archive.\<close>

definition Next_err :: "entry list \<Rightarrow> error \<Rightarrow> error option" where
  "Next_err rest ending = (case rest of [] \<Rightarrow> Some ending | _ # _ \<Rightarrow> None)"

text \<open>\<open>if err == nil { err = e2 }\<close>, the pattern of every deferred release.\<close>

definition keep_first :: "error option \<Rightarrow> error option \<Rightarrow> error option" where
  "keep_first err e2 = (if err = None then e2 else err)"

section \<open>The buffered writer\<close>

text \<open>
  The destination \<open>buf\<close> is reset to: the layer writer \<open>w\<close>, or
  \<open>io.MultiWriter(w, bcdBackupWriter)\<close>, which hands each chunk to \<open>w\<close> and then to the
  backup writer and stops at the first error.  A write is taken to succeed in full or to
  fail with nothing written.
\<close>

datatype sink = ToWriter | ToBoth

definition sink_Write ::
  "env \<Rightarrow> sink \<Rightarrow> byte list \<Rightarrow> event list \<Rightarrow> error option \<times> event list" where
  "sink_Write env s p tr =
    (case s of
       ToWriter \<Rightarrow> call env (Write p) tr
     | ToBoth \<Rightarrow>
         (case call env (Write p) tr of
            (Some err, tr1) \<Rightarrow> (Some err, tr1)
          | (None, tr1) \<Rightarrow> call env (BackupWrite p) tr1))"

text \<open>\<open>bufio.Writer\<close> with the default size: the buffered bytes and the sticky error.\<close>

record bufio_Writer =
  buffered :: "byte list"
  berr :: "error option"

definition defaultBufSize :: nat where
  "defaultBufSize = 4096"

text \<open>\<open>buf.Reset(wr)\<close>: nothing buffered, no error.\<close>

definition Reset :: bufio_Writer where
  "Reset = \<lparr>buffered = [], berr = None\<rparr>"

definition Flush ::
  "env \<Rightarrow> sink \<Rightarrow> bufio_Writer \<Rightarrow> event list \<Rightarrow> error option \<times> bufio_Writer \<times> event list" where
  "Flush env s b tr =
    (if berr b \<noteq> None then (berr b, b, tr)
     else if buffered b = [] then (None, b, tr)
     else (case sink_Write env s (buffered b) tr of
             (Some err, tr1) \<Rightarrow> (Some err, b\<lparr>berr := Some err\<rparr>, tr1)
           | (None, tr1) \<Rightarrow> (None, b\<lparr>buffered := []\<rparr>, tr1)))"

text \<open>
  \<open>bufio.Writer.Write\<close>.  While the chunk does not fit and no error is recorded: with
  an empty buffer the chunk goes to the destination directly; otherwise the buffer is
  filled up and flushed.  What is left is buffered.
\<close>

function buf_Write ::
  "env \<Rightarrow> sink \<Rightarrow> byte list \<Rightarrow> bufio_Writer \<Rightarrow> event list
     \<Rightarrow> error option \<times> bufio_Writer \<times> event list" where
  "buf_Write env s p b tr =
    (if length p > defaultBufSize - length (buffered b) \<and> berr b = None then
       (if buffered b = [] then
          (case sink_Write env s p tr of
             (Some err, tr1) \<Rightarrow> (Some err, b\<lparr>berr := Some err\<rparr>, tr1)
           | (None, tr1) \<Rightarrow> (None, b, tr1))
        else
          (let n = defaultBufSize - length (buffered b) in
           case Flush env s (b\<lparr>buffered := buffered b @ take n p\<rparr>) tr of
             (r, b1, tr1) \<Rightarrow> buf_Write env s (drop n p) b1 tr1))
     else if berr b \<noteq> None then (berr b, b, tr)
     else (None, b\<lparr>buffered := buffered b @ p\<rparr>, tr))"
  by pat_completeness auto
termination
  apply (relation "measure (\<lambda>(env, s, p, b, tr).
                   if berr b \<noteq> None then 0 else if buffered b = [] then 1 else 2)")
   apply simp
  apply (auto simp: Flush_def split: prod.splits option.splits if_splits)
  done

section \<open>The importer\<close>

text \<open>The table of import.go.\<close>

definition mutatedFiles :: "string \<rightharpoonup> string" where
  "mutatedFiles = map_of
    [(''UtilityVM/Files/EFI/Microsoft/Boot/BCD'', ''bcd.bak''),
     (''UtilityVM/Files/EFI/Microsoft/Boot/BCD.LOG'', ''bcd.log.bak''),
     (''UtilityVM/Files/EFI/Microsoft/Boot/BCD.LOG1'', ''bcd.log1.bak''),
     (''UtilityVM/Files/EFI/Microsoft/Boot/BCD.LOG2'', ''bcd.log2.bak'')]"

text \<open>The codec writes the chunks of the body through \<open>buf\<close> and stops at the first error.\<close>

fun write_chunks ::
  "env \<Rightarrow> sink \<Rightarrow> byte list list \<Rightarrow> bufio_Writer \<Rightarrow> event list
     \<Rightarrow> error option \<times> bufio_Writer \<times> event list" where
  "write_chunks env s [] b tr = (None, b, tr)"
| "write_chunks env s (c # cs) b tr =
    (case buf_Write env s c b tr of
       (Some err, b1, tr1) \<Rightarrow> (Some err, b1, tr1)
     | (None, b1, tr1) \<Rightarrow> write_chunks env s cs b1 tr1)"

text \<open>
  \<open>backuptar.WriteBackupStreamFromTarFile(buf, t, hdr)\<close>: the body is replayed through
  \<open>buf\<close>; then the codec reads on to the next header with \<open>t.Next()\<close> and returns it,
  with the error of that call (\<open>nxt\<close>), \<open>io.EOF\<close> included.
\<close>

definition WriteBackupStreamFromTarFile ::
  "env \<Rightarrow> sink \<Rightarrow> entry \<Rightarrow> error option \<Rightarrow> bufio_Writer \<Rightarrow> event list
     \<Rightarrow> error option \<times> bufio_Writer \<times> event list" where
  "WriteBackupStreamFromTarFile env s e nxt b tr =
    (case write_chunks env s (chunks e) b tr of
       (Some err, b1, tr1) \<Rightarrow> (Some err, b1, tr1)
     | (None, b1, tr1) \<Rightarrow>
         (case codec_err e of
            Some err \<Rightarrow> (Some err, b1, tr1)
          | None \<Rightarrow> (nxt, b1, tr1)))"

text \<open>
  \<open>tarToBackupStreamWithMutatedFiles\<close>: the returned error and the events.  The
  returned header is the next entry of the archive when the error is nil.  The deferred
  calls run last registered first: the flush, the close of the backup writer, the close of
  the file.
\<close>

definition tarToBackupStreamWithMutatedFiles ::
  "env \<Rightarrow> string \<Rightarrow> entry \<Rightarrow> error option \<Rightarrow> event list \<Rightarrow> error option \<times> event list" where
  "tarToBackupStreamWithMutatedFiles env root e nxt tr =
    (case mutatedFiles (Name (hdr e)) of
       Some backupPath \<Rightarrow>
         (case call env (Create (filepath_Join [root, backupPath])) tr of
            (Some err, tr1) \<Rightarrow> (Some err, tr1)
          | (None, tr1) \<Rightarrow>
              (case WriteBackupStreamFromTarFile env ToBoth e nxt Reset tr1 of
                 (err, b1, tr2) \<Rightarrow>
                   (case Flush env ToBoth b1 tr2 of
                      (ferr, b2, tr3) \<Rightarrow>
                        (case call env BackupWriterClose tr3 of
                           (cerr, tr4) \<Rightarrow>
                             (case call env FileClose tr4 of
                                (cerr2, tr5) \<Rightarrow>
                                  (keep_first (keep_first (keep_first err ferr) cerr) cerr2,
                                   tr5))))))
     | None \<Rightarrow>
         (case WriteBackupStreamFromTarFile env ToWriter e nxt Reset tr of
            (err, b1, tr2) \<Rightarrow>
              (case Flush env ToWriter b1 tr2 of
                 (ferr, b2, tr3) \<Rightarrow> (keep_first err ferr, tr3))))"

text \<open>
  The loop of \<open>ImportLayer\<close>.  \<open>(hdr, nextErr)\<close> is the head of the archive: its first
  entry, or, when no entry is left, the error that ends it.  \<open>i\<close> counts the iterations,
  \<open>sz\<close> is the running total (\<open>size\<close> in the source).  \<open>fih\<close> is
  \<open>backuptar.FileInfoFromHeader\<close>.  An error from \<open>tarToBackupStreamWithMutatedFiles\<close>
  becomes \<open>nextErr\<close> and is looked at in the next iteration, after the poll of the
  context.
\<close>

type_synonym FileInfoFromHeader = "Header \<Rightarrow> error + (string \<times> 64 word \<times> FileBasicInfo)"

fun import_loop ::
  "env \<Rightarrow> FileInfoFromHeader \<Rightarrow> ctx \<Rightarrow> string \<Rightarrow> nat \<Rightarrow> entry list \<Rightarrow> error
     \<Rightarrow> 64 word \<Rightarrow> event list \<Rightarrow> (64 word \<times> error option) \<times> event list" where
  "import_loop env fih c root i [] nextErr sz tr =
    (if Done c i then ((0, Some (ctx_Err c)), tr)
     else if nextErr = EOF then ((sz, None), tr)
     else ((0, Some nextErr), tr))"
| "import_loop env fih c root i (e # rest) nextErr sz tr =
    (if Done c i then ((0, Some (ctx_Err c)), tr)
     else
       (case whiteout_decode (Name (hdr e)) of
          Some db \<Rightarrow>
            (case call env (Remove (removed_path db)) tr of
               (Some err, tr1) \<Rightarrow> ((0, Some err), tr1)
             | (None, tr1) \<Rightarrow> import_loop env fih c root (Suc i) rest nextErr sz tr1)
        | None \<Rightarrow>
            if Typeflag (hdr e) = TypeLink then
              (case call env (AddLink (FromSlash (Name (hdr e)))
                                      (FromSlash (Linkname (hdr e)))) tr of
                 (Some err, tr1) \<Rightarrow> ((0, Some err), tr1)
               | (None, tr1) \<Rightarrow> import_loop env fih c root (Suc i) rest nextErr sz tr1)
            else
              (case fih (hdr e) of
                 Inl err \<Rightarrow> ((0, Some err), tr)
               | Inr (name, fileSize, fileInfo) \<Rightarrow>
                   (case call env (Add (FromSlash name) fileInfo) tr of
                      (Some err, tr1) \<Rightarrow> ((0, Some err), tr1)
                    | (None, tr1) \<Rightarrow>
                        (case tarToBackupStreamWithMutatedFiles env root e
                                (Next_err rest nextErr) tr1 of
                           (None, tr2) \<Rightarrow>
                             import_loop env fih c root (Suc i) rest nextErr
                               (sz + fileSize) tr2
                         | (Some err, tr2) \<Rightarrow>
                             import_loop env fih c root (Suc i) [] err
                               (sz + fileSize) tr2)))))"

text \<open>
  \<open>ImportLayer\<close>: the returned size and error, and the events of the run.  The deferred
  close of the writer runs on every return after the writer was opened, and sets the
  error only when none is set.
\<close>

definition ImportLayer ::
  "env \<Rightarrow> FileInfoFromHeader \<Rightarrow> ctx \<Rightarrow> entry list \<times> error \<Rightarrow> string \<Rightarrow> string list
     \<Rightarrow> (64 word \<times> error option) \<times> event list" where
  "ImportLayer env fih c r layerPath parentLayerPaths =
    (case filepath_Split layerPath of
       (home, ident) \<Rightarrow>
         (case call env (NewLayerWriter home ident parentLayerPaths) [] of
            (Some err, tr1) \<Rightarrow> ((0, Some err), tr1)
          | (None, tr1) \<Rightarrow>
              (case import_loop env fih c layerPath 0 (fst r) (snd r) 0 tr1 of
                 ((sz, err), tr2) \<Rightarrow>
                   (case call env Close tr2 of
                      (err2, tr3) \<Rightarrow> ((sz, keep_first err err2), tr3)))))"

subsection \<open>Concrete archives and environments\<close>

definition no_info :: FileBasicInfo where
  "no_info = \<lparr>CreationTime = 0, LastAccessTime = 0, LastWriteTime = 0, ChangeTime = 0,
              FileAttributes = 0\<rparr>"

text \<open>
  A \<open>FileInfoFromHeader\<close> that takes the name, for a regular file the size, and the
  file information from the header.
\<close>

definition basic_fih :: FileInfoFromHeader where
  "basic_fih h = Inr (Name h, if Typeflag h = TypeReg then Size h else 0, Metadata h)"

definition file_entry :: "string \<Rightarrow> byte list \<Rightarrow> entry" where
  "file_entry n body =
    \<lparr>hdr = \<lparr>Name = n, Typeflag = TypeReg, Linkname = '''', Size = of_nat (length body),
           Metadata = no_info\<rparr>,
     chunks = [body], codec_err = None\<rparr>"

definition marker_entry :: "string \<Rightarrow> char \<Rightarrow> entry" where
  "marker_entry n t =
    \<lparr>hdr = \<lparr>Name = n, Typeflag = t, Linkname = ''a.txt'', Size = 0, Metadata = no_info\<rparr>,
     chunks = [], codec_err = None\<rparr>"

definition link_entry :: "string \<Rightarrow> string \<Rightarrow> entry" where
  "link_entry n t =
    \<lparr>hdr = \<lparr>Name = n, Typeflag = TypeLink, Linkname = t, Size = 0, Metadata = no_info\<rparr>,
     chunks = [], codec_err = None\<rparr>"

definition hi :: "byte list" where
  "hi = [104, 105]"

text \<open>The archive of the spec's scenario, followed by a hardlink.\<close>

definition small_archive :: "entry list" where
  "small_archive =
    [file_entry ''a.txt'' hi, marker_entry ''.wh.b.txt'' TypeReg, link_entry ''d/c.txt'' ''a.txt'']"


definition all_ok :: env where
  "all_ok tr ev = None"

definition close_fails :: env where
  "close_fails tr ev = (if ev = Close then Some (Failure ''close'') else None)"

definition background :: ctx where
  "background = \<lparr>Done = (\<lambda>i. False), deadline = False\<rparr>"

definition cancel_at :: "nat \<Rightarrow> ctx" where
  "cancel_at k = \<lparr>Done = (\<lambda>i. k \<le> i), deadline = False\<rparr>"

definition layer_path :: string where
  "layer_path = ''C:/layers/42''"

text \<open>An archive of two files, of two and of three bytes.\<close>

definition two_files :: "entry list" where
  "two_files = [file_entry ''a.txt'' hi, file_entry ''b.txt'' [1, 2, 3]]"

text \<open>A driver whose \<open>Write\<close> fails, and reports \<open>io.EOF\<close> as the error.\<close>

definition write_reports_EOF :: env where
  "write_reports_EOF tr ev = (case ev of Write p \<Rightarrow> Some EOF | _ \<Rightarrow> None)"

subsection \<open>The three kinds of archive entry\<close>

text \<open>
  The kinds of the specification, by the tests of the import loop in their order: a
  deletion marker has a base name with the whiteout prefix; a hardlink is any other entry
  of type link; everything else is a regular entry, whose declared size is the size
  \<open>FileInfoFromHeader\<close> derives from its header.
\<close>

definition is_deletion_marker :: "entry \<Rightarrow> bool" where
  "is_deletion_marker e = HasPrefix (path_Base (Name (hdr e))) whiteoutPrefix"

definition is_hardlink :: "entry \<Rightarrow> bool" where
  "is_hardlink e = (\<not> is_deletion_marker e \<and> Typeflag (hdr e) = TypeLink)"

definition is_regular :: "entry \<Rightarrow> bool" where
  "is_regular e = (\<not> is_deletion_marker e \<and> Typeflag (hdr e) \<noteq> TypeLink)"

definition declared_size :: "FileInfoFromHeader \<Rightarrow> entry \<Rightarrow> 64 word" where
  "declared_size fih e = (case fih (hdr e) of Inr (name, fileSize, fileInfo) \<Rightarrow> fileSize | Inl err \<Rightarrow> 0)"

subsection \<open>Reading a run\<close>

text \<open>The chunks handed to the layer writer and to the backup writer, in order.\<close>

fun writes :: "event list \<Rightarrow> byte list list" where
  "writes [] = []"
| "writes (Write p # evs) = p # writes evs"
| "writes (ev # evs) = writes evs"

fun backup_writes :: "event list \<Rightarrow> byte list list" where
  "backup_writes [] = []"
| "backup_writes (BackupWrite p # evs) = p # backup_writes evs"
| "backup_writes (ev # evs) = backup_writes evs"

text \<open>
  The events a destination of \<open>buf\<close> can produce: writes to the layer writer and, for
  the double destination only, writes to the backup writer.
\<close>

definition sink_event :: "sink \<Rightarrow> event \<Rightarrow> bool" where
  "sink_event s ev = (case ev of Write p \<Rightarrow> True | BackupWrite p \<Rightarrow> s = ToBoth | _ \<Rightarrow> False)"

definition sink_events :: "sink \<Rightarrow> event list \<Rightarrow> bool" where
  "sink_events s evs = list_all (sink_event s) evs"

text \<open>
  What an operation of the buffered writer adds to a run: events of its destination
  only; and, when no call but the final close of the layer writer fails, no error, every
  chunk that reaches the backup writer is the chunk that reached the layer writer, and
  the bytes written and still buffered are the bytes buffered before followed by the
  bytes given.
\<close>

definition adds ::
  "env \<Rightarrow> sink \<Rightarrow> bufio_Writer \<Rightarrow> byte list \<Rightarrow> event list
     \<Rightarrow> error option \<times> bufio_Writer \<times> event list \<Rightarrow> bool" where
  "adds env s b p tr res =
    (case res of (r, b', tr') \<Rightarrow>
       (\<exists>ws. tr' = tr @ ws \<and> sink_events s ws
          \<and> ((\<forall>tr ev. ev \<noteq> Close \<longrightarrow> env tr ev = None) \<and> berr b = None \<longrightarrow>
               r = None \<and> berr b' = None
             \<and> concat (writes ws) @ buffered b' = buffered b @ p
             \<and> backup_writes ws = (if s = ToBoth then writes ws else []))))"

section \<open>The exporter\<close>

text \<open>
  What \<open>r.Next()\<close> of the layer reader yields for one file: name, size and file
  information, nil (\<open>None\<close>) for a file deleted in this layer; \<open>ldata\<close> is the backup
  stream the reader then gives for the file.  A layer is a list of such entries and the
  error that \<open>r.Next()\<close> returns after the last one, \<open>io.EOF\<close> at the end.
\<close>

record layer_entry =
  lname :: string
  lsize :: "64 word"
  linfo :: "FileBasicInfo option"
  ldata :: "byte list"

text \<open>The header of a whiteout: only the name is set.\<close>

definition whiteout_header :: "string \<Rightarrow> Header" where
  "whiteout_header name =
    \<lparr>Name = export_whiteout_name name, Typeflag = CHR 0x00, Linkname = '''', Size = 0,
     Metadata = no_info\<rparr>"

text \<open>
  The one call the loop body makes for an entry: \<open>t.WriteHeader\<close> of a whiteout when
  \<open>fileInfo\<close> is nil, \<open>backuptar.WriteTarFileFromBackupStream\<close> otherwise.
\<close>

definition entry_event :: "layer_entry \<Rightarrow> event" where
  "entry_event e =
    (case linfo e of
       None \<Rightarrow> WriteHeader (whiteout_header (lname e))
     | Some fileInfo \<Rightarrow> WriteTarFileFromBackupStream (lname e) (lsize e) fileInfo (ldata e))"

text \<open>
  \<open>writeTarFromLayer\<close>: the poll of the context, then \<open>r.Next()\<close>; the trailer
  (\<open>t.Close()\<close>) is written after the loop has ended on \<open>io.EOF\<close>.
\<close>

fun writeTarFromLayer ::
  "env \<Rightarrow> ctx \<Rightarrow> nat \<Rightarrow> layer_entry list \<Rightarrow> error \<Rightarrow> event list
     \<Rightarrow> error option \<times> event list" where
  "writeTarFromLayer env c i [] ending tr =
    (if Done c i then (Some (ctx_Err c), tr)
     else if ending = EOF then call env TarClose tr
     else (Some ending, tr))"
| "writeTarFromLayer env c i (e # rest) ending tr =
    (if Done c i then (Some (ctx_Err c), tr)
     else
       (case call env (entry_event e) tr of
          (Some err, tr1) \<Rightarrow> (Some err, tr1)
        | (None, tr1) \<Rightarrow> writeTarFromLayer env c (Suc i) rest ending tr1))"

text \<open>
  \<open>ExportLayer\<close>.  The deferred \<open>DeactivateLayer\<close> runs on every return after the
  activation; its result is discarded.
\<close>

definition ExportLayer ::
  "env \<Rightarrow> ctx \<Rightarrow> layer_entry list \<times> error \<Rightarrow> string \<Rightarrow> string list
     \<Rightarrow> error option \<times> event list" where
  "ExportLayer env c r path parentLayerPaths =
    (case call env (ActivateLayer path) [] of
       (Some err, tr1) \<Rightarrow> (Some err, tr1)
     | (None, tr1) \<Rightarrow>
         (case
            (case call env (PrepareLayer path parentLayerPaths) tr1 of
               (Some err, tr2) \<Rightarrow> (Some err, tr2)
             | (None, tr2) \<Rightarrow>
                 (case call env (UnprepareLayer path) tr2 of
                    (Some err, tr3) \<Rightarrow> (Some err, tr3)
                  | (None, tr3) \<Rightarrow>
                      (case call env (NewLayerReader path parentLayerPaths) tr3 of
                         (Some err, tr4) \<Rightarrow> (Some err, tr4)
                       | (None, tr4) \<Rightarrow>
                           (case writeTarFromLayer env c 0 (fst r) (snd r) tr4 of
                              (err, tr5) \<Rightarrow>
                                (case call env ReaderClose tr5 of
                                   (cerr, tr6) \<Rightarrow>
                                     (if err \<noteq> None then err else cerr, tr6))))))
          of (res, tr7) \<Rightarrow> (res, snd (call env (DeactivateLayer path) tr7))))"

subsection \<open>Reading an export\<close>

text \<open>The events up to and including the opening of the layer reader.\<close>

definition opening_events :: "string \<Rightarrow> string list \<Rightarrow> event list" where
  "opening_events path parentLayerPaths =
    [ActivateLayer path, PrepareLayer path parentLayerPaths, UnprepareLayer path,
     NewLayerReader path parentLayerPaths]"

text \<open>All four calls of the opening succeed.\<close>

definition opened :: "env \<Rightarrow> string \<Rightarrow> string list \<Rightarrow> bool" where
  "opened env path parentLayerPaths =
    (env [] (ActivateLayer path) = None
   \<and> env [ActivateLayer path] (PrepareLayer path parentLayerPaths) = None
   \<and> env [ActivateLayer path, PrepareLayer path parentLayerPaths] (UnprepareLayer path) = None
   \<and> env [ActivateLayer path, PrepareLayer path parentLayerPaths, UnprepareLayer path]
         (NewLayerReader path parentLayerPaths) = None)"

text \<open>Every entry is written to the archive without error, starting from the run \<open>tr\<close>.\<close>

fun all_written :: "env \<Rightarrow> event list \<Rightarrow> layer_entry list \<Rightarrow> bool" where
  "all_written env tr [] = True"
| "all_written env tr (e # es) =
    (env tr (entry_event e) = None \<and> all_written env (tr @ [entry_event e]) es)"

subsection \<open>A concrete layer\<close>

definition small_layer :: "layer_entry list" where
  "small_layer =
    [\<lparr>lname = ''a.txt'', lsize = 2, linfo = Some no_info, ldata = hi\<rparr>,
     \<lparr>lname = ''b.txt'', lsize = 0, linfo = None, ldata = []\<rparr>]"

definition reader_close_fails :: env where
  "reader_close_fails tr ev = (if ev = ReaderClose then Some (Failure ''close'') else None)"

definition second_entry_fails :: env where
  "second_entry_fails tr ev =
    (if ev = ReaderClose then Some (Failure ''close'')
     else if ev = WriteHeader (whiteout_header ''b.txt'') then Some (Failure ''disk full'')
     else None)"

section \<open>Export followed by import\<close>

text \<open>
  The metadata codec (\<open>backuptar\<close>) is not part of these files; it is a parameter.
  \<open>hdr_of\<close> is the header \<open>WriteTarFileFromBackupStream\<close> writes for a file from its
  name, size and file information; \<open>info_of\<close> is \<open>FileInfoFromHeader\<close>; \<open>replay d\<close> are
  the chunks \<open>WriteBackupStreamFromTarFile\<close> writes when it decodes the body that was
  encoded from the backup stream \<open>d\<close>.
\<close>

record codec =
  hdr_of :: "string \<Rightarrow> 64 word \<Rightarrow> FileBasicInfo \<Rightarrow> Header"
  info_of :: FileInfoFromHeader
  replay :: "byte list \<Rightarrow> byte list list"

text \<open>
  The archive an export has written, as the importer reads it: one entry for each header
  and each file written, in order; it ends on \<open>io.EOF\<close> if the trailer was written and is
  cut short otherwise.
\<close>

definition archive_entry :: "codec \<Rightarrow> event \<Rightarrow> entry option" where
  "archive_entry cd ev =
    (case ev of
       WriteHeader h \<Rightarrow> Some \<lparr>hdr = h, chunks = [], codec_err = None\<rparr>
     | WriteTarFileFromBackupStream name sz fileInfo d \<Rightarrow>
         Some \<lparr>hdr = hdr_of cd name sz fileInfo, chunks = replay cd d, codec_err = None\<rparr>
     | _ \<Rightarrow> None)"

definition archive_of :: "codec \<Rightarrow> event list \<Rightarrow> entry list \<times> error" where
  "archive_of cd tr =
    (List.map_filter (archive_entry cd) tr,
     if TarClose \<in> set tr then EOF else ErrUnexpectedEOF)"

text \<open>
  What a layer writer has been told, read off the events of an import: a file added with
  its information and all the bytes written for it, a name removed, a link added.
\<close>

datatype layer_op =
    File string FileBasicInfo "byte list"
  | Removed string
  | Linked string string

text \<open>The operations so far, the latest first, and one more event.\<close>

fun apply_event :: "layer_op list \<Rightarrow> event \<Rightarrow> layer_op list" where
  "apply_event ops (Add name fileInfo) = File name fileInfo [] # ops"
| "apply_event (File name fileInfo d # ops) (Write p) = File name fileInfo (d @ p) # ops"
| "apply_event ops (Remove name) = Removed name # ops"
| "apply_event ops (AddLink name t) = Linked name t # ops"
| "apply_event ops ev = ops"

definition layer_ops :: "event list \<Rightarrow> layer_op list" where
  "layer_ops tr = rev (foldl apply_event [] tr)"

text \<open>What an entry of the exported layer is expected to become.\<close>

definition op_of :: "layer_entry \<Rightarrow> layer_op" where
  "op_of e =
    (case linfo e of
       None \<Rightarrow> Removed (lname e)
     | Some fileInfo \<Rightarrow> File (lname e) fileInfo (ldata e))"

text \<open>
  The names a layer reader yields: relative native paths in cleaned form, that is,
  elements separated by single backslashes, none of them empty, \<open>.\<close> or \<open>..\<close>, and no
  volume name.
\<close>

definition normal_element :: "string \<Rightarrow> bool" where
  "normal_element x = (x \<noteq> [] \<and> x \<noteq> ''.'' \<and> x \<noteq> ''..'')"

definition layer_name :: "string \<Rightarrow> bool" where
  "layer_name n =
    (slash \<notin> set n \<and> volumeless n \<and> list_all normal_element (elements IsPathSeparator n))"

text \<open>
  \<open>ExportLayer\<close> into an archive, then \<open>ImportLayer\<close> of that archive: the returned size
  and error of the import and its events.
\<close>

definition export_then_import ::
  "env \<Rightarrow> env \<Rightarrow> codec \<Rightarrow> ctx \<Rightarrow> layer_entry list \<Rightarrow> string \<Rightarrow> string \<Rightarrow> string list
     \<Rightarrow> (64 word \<times> error option) \<times> event list" where
  "export_then_import envx envi cd c es path layerPath parentLayerPaths =
    ImportLayer envi (info_of cd) c
      (archive_of cd (snd (ExportLayer envx c (es, EOF) path parentLayerPaths)))
      layerPath parentLayerPaths"

subsection \<open>A concrete codec and layers\<close>

definition plain_codec :: codec where
  "plain_codec =
    \<lparr>hdr_of = (\<lambda>name sz fileInfo.
        \<lparr>Name = ToSlash name, Typeflag = TypeReg, Linkname = '''', Size = sz,
         Metadata = fileInfo\<rparr>),
     info_of = basic_fih,
     replay = (\<lambda>d. [d])\<rparr>"

definition some_info :: FileBasicInfo where
  "some_info = \<lparr>CreationTime = 1, LastAccessTime = 2, LastWriteTime = 3, ChangeTime = 4,
                FileAttributes = 32\<rparr>"

text \<open>A layer with a file in a directory and a deletion beside it.\<close>

definition nested_layer :: "layer_entry list" where
  "nested_layer =
    [\<lparr>lname = ''Files'' @ [bslash] @ ''a.txt'', lsize = 2, linfo = Some some_info, ldata = hi\<rparr>,
     \<lparr>lname = ''Files'' @ [bslash] @ ''b.txt'', lsize = 0, linfo = None, ldata = []\<rparr>,
     \<lparr>lname = ''c.txt'', lsize = 0, linfo = None, ldata = []\<rparr>]"

text \<open>A layer with one file whose name starts with the whiteout prefix.\<close>

definition wh_named_layer :: "layer_entry list" where
  "wh_named_layer = [\<lparr>lname = ''.wh.x'', lsize = 2, linfo = Some no_info, ldata = hi\<rparr>]"

text \<open>The archive entry an exported layer entry becomes.\<close>

definition entry_of :: "codec \<Rightarrow> layer_entry \<Rightarrow> entry" where
  "entry_of cd e =
    (case linfo e of
       None \<Rightarrow> \<lparr>hdr = whiteout_header (lname e), chunks = [], codec_err = None\<rparr>
     | Some fileInfo \<Rightarrow>
         \<lparr>hdr = hdr_of cd (lname e) (lsize e) fileInfo, chunks = replay cd (ldata e),
          codec_err = None\<rparr>)"

text \<open>
  What is asked of the codec: the header of a file carries its name with forward slashes
  and is not of type link; \<open>FileInfoFromHeader\<close> gives back that name, the size and the
  file information; and the decoded body is, byte for byte, the backup stream that was
  encoded.
\<close>

definition round_trips :: "codec \<Rightarrow> bool" where
  "round_trips cd =
    ((\<forall>name sz fileInfo.
        Name (hdr_of cd name sz fileInfo) = ToSlash name
      \<and> Typeflag (hdr_of cd name sz fileInfo) \<noteq> TypeLink
      \<and> info_of cd (hdr_of cd name sz fileInfo) = Inr (ToSlash name, sz, fileInfo))
   \<and> (\<forall>d. concat (replay cd d) = d))"



section \<open>Properties of the single-mount manager\<close>

lemma fetch_mounts_target:
  "fetch_mounts env lm = Inr lm1 \<Longrightarrow> target lm1 = target lm"
  by (auto simp: fetch_mounts_def split: option.splits sum.splits)

lemma TempDir_fresh:
  "TempDir env h = (Inr d, h1) \<Longrightarrow> d \<notin> set (dirs h) \<and> h1 = h\<lparr>dirs := d # dirs h\<rparr>"
  by (auto simp: TempDir_def split: sum.splits if_splits)

lemma TempDir_error:
  "TempDir env h = (Inl e, h1) \<Longrightarrow> h1 = h"
  by (auto simp: TempDir_def split: sum.splits if_splits)

lemma RemoveAll_fresh:
  "d \<notin> set (dirs h) \<Longrightarrow> os_RemoveAll env = None \<Longrightarrow>
     RemoveAll env d (h\<lparr>dirs := d # dirs h\<rparr>) = h"
  by (simp add: RemoveAll_def)

lemma RemoveAll_failed:
  "os_RemoveAll env = Some x \<Longrightarrow> RemoveAll env d h = h"
  by (simp add: RemoveAll_def)

lemma Mount_single_cases:
  assumes "fetch_mounts env lm = Inr lm1" and "mounts lm1 = Some [m]"
  shows "Mount env lm h =
    (if is_bind m \<and> \<not> has_ro m then ((Source m, None), lm1, h)
     else (case TempDir env h of
             (Inl err, h1) \<Rightarrow> (('''', Some (Wrap ''failed to create temp dir'' err)), lm1, h1)
           | (Inr dir, h1) \<Rightarrow>
               (case m_Mount env of
                  Some err \<Rightarrow> (('''', Some (Wrap ''failed to mount in-place: %v'' err)),
                               lm1, RemoveAll env dir h1)
                | None \<Rightarrow> ((dir, None), lm1\<lparr>target := dir\<rparr>,
                            h1\<lparr>mounted := dir # mounted h1\<rparr>))))"
  using assms by (simp add: Mount_def)

lemma Mount_not_single:
  assumes "fetch_mounts env lm = Inr lm1" and "\<not> (\<exists>m. mounts lm1 = Some [m])"
  shows "Mount env lm h =
        (('''', Some (Wrap ''request to mount %d layers, only 1 is supported''
                        ErrNotImplemented)), lm1, h)"
  using assms by (auto simp: Mount_def split: option.splits list.splits)

lemma Mount_preserves_target_exists:
  assumes "Mount env lm h = (r, lm', h')" and "target_exists lm h"
  shows "target_exists lm' h'"
proof (cases "fetch_mounts env lm")
  case (Inl err)
  with assms show ?thesis by (simp add: Mount_def)
next
  case fm: (Inr lm1)
  have t: "target lm1 = target lm" using fm by (rule fetch_mounts_target)
  show ?thesis
  proof (cases "\<exists>m. mounts lm1 = Some [m]")
    case False
    with assms t show ?thesis
      by (auto simp: Mount_not_single [OF fm False] target_exists_def)
  next
    case True
    then obtain m where m: "mounts lm1 = Some [m]" by blast
    obtain o1 h1 where td: "TempDir env h = (o1, h1)" by (cases "TempDir env h")
    show ?thesis
    proof (cases o1)
      case (Inl e)
      then have "h1 = h" using td TempDir_error by blast
      with assms t td Inl show ?thesis
        by (auto simp: Mount_single_cases [OF fm m] target_exists_def split: if_splits)
    next
      case (Inr d)
      then have f: "d \<notin> set (dirs h)" "h1 = h\<lparr>dirs := d # dirs h\<rparr>"
        using td TempDir_fresh by blast+
      with assms t td Inr show ?thesis
        by (auto simp: Mount_single_cases [OF fm m]
              target_exists_def RemoveAll_def split: if_splits option.splits)
    qed
  qed
qed

lemma Unmount_preserves_target_exists:
  assumes "Unmount env lm h = (r, lm', h')" and "target_exists lm h"
  shows "target_exists lm' h'"
  using assms
  by (auto simp: Unmount_def target_exists_def RemoveAll_def Let_def split: if_splits)

text \<open>
  Claim C9 (single-mount policy).  Let the single backing mount be \<open>m\<close>.  If \<open>m\<close> is of
  type bind or rbind and has no \<open>ro\<close> option, \<open>Mount\<close> returns \<open>m\<close>'s source and leaves
  the mounter's target and the host as they were: no directory is created and nothing is
  mounted.  In every other case the call goes through \<open>ioutil.TempDir\<close> and
  \<open>m.Mount\<close>: when both succeed the returned path is the directory just created, it did
  not exist before the call, \<open>m\<close> is mounted there and it becomes the target; and whenever
  the call returns without error its path is such a new directory.  A target recorded by
  an earlier \<open>Mount\<close> and not yet unmounted still exists, so it is never returned again.
\<close>

theorem Mount_single_mount_policy:
  assumes "fetch_mounts env lm = Inr lm1" and "mounts lm1 = Some [m]"
  shows "(is_bind m \<and> \<not> has_ro m \<longrightarrow>
            Mount env lm h = ((Source m, None), lm1, h) \<and> target lm1 = target lm)
       \<and> (\<not> (is_bind m \<and> \<not> has_ro m) \<longrightarrow>
            (\<forall>d. tempdir_outcome env = Inr d \<and> d \<notin> set (dirs h) \<and> m_Mount env = None \<longrightarrow>
               Mount env lm h =
                 ((d, None), lm1\<lparr>target := d\<rparr>,
                  h\<lparr>dirs := d # dirs h, mounted := d # mounted h\<rparr>))
          \<and> (\<forall>p lm' h'. Mount env lm h = ((p, None), lm', h') \<longrightarrow>
               p \<notin> set (dirs h) \<and> dirs h' = p # dirs h \<and> mounted h' = p # mounted h
             \<and> target lm' = p
             \<and> (target_exists lm h \<and> target lm \<noteq> '''' \<longrightarrow> p \<noteq> target lm)))"
proof -
  have A: "Mount env lm h = ((Source m, None), lm1, h)" if "is_bind m \<and> \<not> has_ro m"
    using that by (simp add: Mount_single_cases [OF assms])
  have B: "target lm1 = target lm" using assms(1) by (rule fetch_mounts_target)
  have C: "Mount env lm h =
      ((d, None), lm1\<lparr>target := d\<rparr>, h\<lparr>dirs := d # dirs h, mounted := d # mounted h\<rparr>)"
    if nb: "\<not> (is_bind m \<and> \<not> has_ro m)"
      and ok: "tempdir_outcome env = Inr d \<and> d \<notin> set (dirs h) \<and> m_Mount env = None" for d
  proof -
    from ok have "TempDir env h = (Inr d, h\<lparr>dirs := d # dirs h\<rparr>)"
      by (simp add: TempDir_def)
    with nb ok show ?thesis by (auto simp: Mount_single_cases [OF assms])
  qed
  have D: "p \<notin> set (dirs h) \<and> dirs h' = p # dirs h \<and> mounted h' = p # mounted h
             \<and> target lm' = p
             \<and> (target_exists lm h \<and> target lm \<noteq> '''' \<longrightarrow> p \<noteq> target lm)"
    if nb: "\<not> (is_bind m \<and> \<not> has_ro m)"
      and r: "Mount env lm h = ((p, None), lm', h')" for p lm' h'
  proof -
    obtain o1 h1 where td: "TempDir env h = (o1, h1)" by (cases "TempDir env h")
    from nb r td obtain d where d: "o1 = Inr d" "m_Mount env = None" "p = d"
        "lm' = lm1\<lparr>target := d\<rparr>" "h' = h1\<lparr>mounted := d # mounted h1\<rparr>"
      by (cases o1; cases "m_Mount env") (auto simp: Mount_single_cases [OF assms])
    from td d(1) have f: "d \<notin> set (dirs h)" "h1 = h\<lparr>dirs := d # dirs h\<rparr>"
      using TempDir_fresh by blast+
    with d show ?thesis by (auto simp: target_exists_def)
  qed
  from A B C D show ?thesis by blast
qed

theorem Mount_single_mount_policy_witness:
  "Mount (ok_env [bind_mount] ''T1'') fresh_mounter mounted_host =
     ((''C:/data'', None),
      fresh_mounter\<lparr>mounts := Some [bind_mount], release := Some None\<rparr>, mounted_host)
 \<and> Mount (ok_env [ro_bind_mount] ''T1'') fresh_mounter mounted_host =
     ((''T1'', None),
      fresh_mounter\<lparr>mounts := Some [ro_bind_mount], release := Some None, target := ''T1''\<rparr>,
      \<lparr>dirs = [''T1'', ''T0''], mounted = [''T1'', ''T0'']\<rparr>)
 \<and> Mount (ok_env [] ''T1'') mounted_mounter mounted_host =
     ((''T1'', None), mounted_mounter\<lparr>target := ''T1''\<rparr>,
      \<lparr>dirs = [''T1'', ''T0''], mounted = [''T1'', ''T0'']\<rparr>)
 \<and> ''T1'' \<noteq> target mounted_mounter"
proof -
  have a: "fetch_mounts (ok_env [bind_mount] ''T1'') fresh_mounter =
      Inr (fresh_mounter\<lparr>mounts := Some [bind_mount], release := Some None\<rparr>)"
    by (simp add: fetch_mounts_def ok_env_def fresh_mounter_def)
  have b: "fetch_mounts (ok_env [ro_bind_mount] ''T1'') fresh_mounter =
      Inr (fresh_mounter\<lparr>mounts := Some [ro_bind_mount], release := Some None\<rparr>)"
    by (simp add: fetch_mounts_def ok_env_def fresh_mounter_def)
  have c: "fetch_mounts (ok_env [] ''T1'') mounted_mounter = Inr mounted_mounter"
    by (simp add: fetch_mounts_def mounted_mounter_def)
  show ?thesis
    using Mount_single_mount_policy [OF a, of bind_mount mounted_host]
      Mount_single_mount_policy [OF b, of ro_bind_mount mounted_host]
      Mount_single_mount_policy [OF c, of overlay_mount mounted_host]
    by (simp add: is_bind_def has_ro_def bind_mount_def ro_bind_mount_def overlay_mount_def
        ok_env_def fresh_mounter_def mounted_mounter_def mounted_host_def target_exists_def)
qed

text \<open>
  Claim C10, as stated, fails in two ways.  After a failed \<open>Mount\<close> the target is
  unchanged, but it is empty only if it was empty before: \<open>Mount\<close> has no guard against
  a second call without \<open>Unmount\<close>, so after a first call has recorded the target \<open>T0\<close>
  a second call that fails to create its directory leaves the target \<open>T0\<close>.  And the
  result of \<open>os.RemoveAll\<close> is discarded: when the in-place mount fails and the removal
  fails too, the directory \<open>T1\<close> created during the call is still there.
\<close>

theorem Mount_error_target_counterexample:
  "Mount (ok_env [overlay_mount] ''T0'') fresh_mounter empty_host =
     ((''T0'', None), mounted_mounter, mounted_host)
 \<and> Mount no_tempdir_env mounted_mounter mounted_host =
     (('''', Some (Wrap ''failed to create temp dir'' (Failure ''disk full''))),
      mounted_mounter, mounted_host)
 \<and> target mounted_mounter \<noteq> ''''
 \<and> Mount cleanup_fails_env fresh_mounter mounted_host =
     (('''', Some (Wrap ''failed to mount in-place: %v'' (Failure ''access denied''))),
      fresh_mounter\<lparr>mounts := Some [overlay_mount], release := Some None\<rparr>,
      \<lparr>dirs = [''T1'', ''T0''], mounted = [''T0'']\<rparr>)
 \<and> ''T1'' \<notin> set (dirs mounted_host)"
  by (simp add: Mount_def fetch_mounts_def TempDir_def RemoveAll_def ok_env_def
      no_tempdir_env_def cleanup_fails_env_def
      fresh_mounter_def empty_host_def mounted_mounter_def mounted_host_def
      overlay_mount_def is_bind_def has_ro_def)

text \<open>
  Claim C10, amended.  Whenever \<open>Mount\<close> returns an error, whatever the cause, the
  returned path is empty, the target is unchanged (so it is still empty if it was empty
  before the call) and nothing new is mounted.  A temporary directory created during the
  call is removed if \<open>os.RemoveAll\<close> succeeds, and the host is then as it was before the
  call.  The host differs from before only when the in-place mount has failed and the
  removal has failed as well: then the one directory created during the call is left.
\<close>

theorem Mount_error_leaves_no_target:
  assumes "Mount env lm h = ((p, Some e), lm', h')"
  shows "p = '''' \<and> target lm' = target lm \<and> (target lm = '''' \<longrightarrow> target lm' = '''')
       \<and> mounted h' = mounted h
       \<and> (os_RemoveAll env = None \<longrightarrow> h' = h)
       \<and> (h' \<noteq> h \<longrightarrow>
            (\<exists>d. tempdir_outcome env = Inr d \<and> d \<notin> set (dirs h) \<and> m_Mount env \<noteq> None
               \<and> os_RemoveAll env \<noteq> None \<and> h' = h\<lparr>dirs := d # dirs h\<rparr>))"
proof (cases "fetch_mounts env lm")
  case (Inl err)
  with assms show ?thesis by (simp add: Mount_def)
next
  case fm: (Inr lm1)
  have t: "target lm1 = target lm" using fm by (rule fetch_mounts_target)
  show ?thesis
  proof (cases "\<exists>m. mounts lm1 = Some [m]")
    case False
    with assms t show ?thesis by (auto simp: Mount_not_single [OF fm False])
  next
    case True
    then obtain m where m: "mounts lm1 = Some [m]" by blast
    obtain o1 h1 where td: "TempDir env h = (o1, h1)" by (cases "TempDir env h")
    show ?thesis
    proof (cases o1)
      case (Inl err)
      then have "h1 = h" using td TempDir_error by blast
      with assms t td Inl show ?thesis
        by (auto simp: Mount_single_cases [OF fm m] split: if_splits)
    next
      case (Inr d)
      then have f: "d \<notin> set (dirs h)" "h1 = h\<lparr>dirs := d # dirs h\<rparr>"
        using td TempDir_fresh by blast+
      have o: "tempdir_outcome env = Inr d"
        using td Inr by (auto simp: TempDir_def split: sum.splits if_splits)
      from assms td Inr obtain x where x: "m_Mount env = Some x"
          "p = ''''" "lm' = lm1" "h' = RemoveAll env d h1"
        by (cases "m_Mount env")
          (auto simp: Mount_single_cases [OF fm m] split: if_splits)
      show ?thesis
      proof (cases "os_RemoveAll env")
        case None
        then have "h' = h" using x(4) f by (simp add: RemoveAll_fresh)
        with x t None show ?thesis by simp
      next
        case (Some y)
        then have "h' = h\<lparr>dirs := d # dirs h\<rparr>" using x(4) f by (simp add: RemoveAll_failed)
        with x t Some o f show ?thesis by auto
      qed
    qed
  qed
qed

theorem Mount_error_leaves_no_target_witness:
  "Mount mount_fails_env fresh_mounter mounted_host =
     (('''', Some (Wrap ''failed to mount in-place: %v'' (Failure ''access denied''))),
      fresh_mounter\<lparr>mounts := Some [overlay_mount], release := Some None\<rparr>, mounted_host)
 \<and> target (fresh_mounter\<lparr>mounts := Some [overlay_mount], release := Some None\<rparr>) = ''''
 \<and> os_RemoveAll mount_fails_env = None"
proof -
  have a: "Mount mount_fails_env fresh_mounter mounted_host =
     (('''', Some (Wrap ''failed to mount in-place: %v'' (Failure ''access denied''))),
      fresh_mounter\<lparr>mounts := Some [overlay_mount], release := Some None\<rparr>,
      RemoveAll mount_fails_env ''T1'' (mounted_host\<lparr>dirs := ''T1'' # dirs mounted_host\<rparr>))"
    by (simp add: Mount_def fetch_mounts_def TempDir_def mount_fails_env_def
        fresh_mounter_def mounted_host_def overlay_mount_def is_bind_def has_ro_def)
  have b: "os_RemoveAll mount_fails_env = None" by (simp add: mount_fails_env_def)
  show ?thesis
    using Mount_error_leaves_no_target [OF a] a b by (simp add: fresh_mounter_def)
qed

section \<open>Properties of the path functions and of the whiteout names\<close>

lemma elements_nonempty [simp]: "elements sep p \<noteq> []"
  by (induction p) (auto split: list.splits)

lemma elements_sep_free_all: "\<forall>e\<in>set (elements sep p). \<forall>c\<in>set e. \<not> sep c"
proof (induction p)
  case Nil
  then show ?case by simp
next
  case (Cons a p)
  then show ?case by (cases "elements sep p") auto
qed

lemma elements_sep_free: "e \<in> set (elements sep p) \<Longrightarrow> c \<in> set e \<Longrightarrow> \<not> sep c"
  using elements_sep_free_all by blast

lemma elements_append_sep:
  "sep s \<Longrightarrow> elements sep (a @ s # b) = elements sep a @ elements sep b"
proof (induction a)
  case Nil
  then show ?case by simp
next
  case (Cons c cs)
  then show ?case by (cases "elements sep cs") (auto split: list.splits)
qed

lemma elements_sep_free_single:
  "\<forall>c\<in>set b. \<not> sep c \<Longrightarrow> elements sep b = [b]"
  by (induction b) auto

lemma elements_ToSlash: "elements is_slash (ToSlash p) = elements IsPathSeparator p"
  by (induction p) (auto simp: ToSlash_def is_slash_def IsPathSeparator_def slash_def bslash_def)

lemma join_elems_snoc:
  "join_elems s (xs @ [e]) = (if xs = [] then e else join_elems s xs @ s # e)"
  by (induction s xs rule: join_elems.induct) auto

lemma join_elems_nonempty:
  "xs \<noteq> [] \<Longrightarrow> [] \<notin> set xs \<Longrightarrow> join_elems s xs \<noteq> []"
  by (induction s xs rule: join_elems.induct) auto

lemma ToSlash_id: "bslash \<notin> set x \<Longrightarrow> ToSlash x = x"
  by (induction x) (auto simp: ToSlash_def)

lemma ToSlash_append: "ToSlash (a @ b) = ToSlash a @ ToSlash b"
  by (simp add: ToSlash_def)

lemma ToSlash_bslash: "ToSlash (bslash # b) = slash # ToSlash b"
  by (simp add: ToSlash_def)

lemma ToSlash_join_elems:
  "\<forall>x\<in>set xs. bslash \<notin> set x \<Longrightarrow> ToSlash (join_elems bslash xs) = join_elems slash xs"
proof (induction xs rule: induct_list012)
  case 1 then show ?case by (simp add: ToSlash_def)
next
  case (2 x) then show ?case by (simp add: ToSlash_id)
next
  case (3 x y ys)
  then show ?case by (simp add: ToSlash_append ToSlash_bslash ToSlash_id)
qed

lemma clean_step_subset:
  "set (clean_step r st e) \<subseteq> insert e (set st)"
  by (auto simp: clean_step_def split: list.splits)

lemma clean_step_no_empty:
  "[] \<notin> set st \<Longrightarrow> [] \<notin> set (clean_step r st e)"
  by (auto simp: clean_step_def split: list.splits)

lemma foldl_clean_step_subset:
  "set (foldl (clean_step r) st es) \<subseteq> set st \<union> set es"
proof (induction es arbitrary: st)
  case Nil then show ?case by simp
next
  case (Cons e es)
  show ?case using Cons [of "clean_step r st e"] clean_step_subset [of r st e] by auto
qed

lemma foldl_clean_step_no_empty:
  "[] \<notin> set st \<Longrightarrow> [] \<notin> set (foldl (clean_step r) st es)"
  by (induction es arbitrary: st) (auto simp: clean_step_no_empty)

lemma ToSlash_Clean: "ToSlash (filepath_Clean p) = path_Clean (ToSlash p)"
proof (cases "p = []")
  case True
  then show ?thesis
    by (simp add: filepath_Clean_def path_Clean_def Clean_def ToSlash_def bslash_def)
next
  case False
  let ?r = "IsPathSeparator (hd p)"
  let ?st = "foldl (clean_step ?r) [] (elements IsPathSeparator p)"
  have r: "is_slash (hd (ToSlash p)) = ?r"
    using False by (cases p) (auto simp: ToSlash_def is_slash_def IsPathSeparator_def)
  have ne: "ToSlash p \<noteq> []" using False by (simp add: ToSlash_def)
  have "set ?st \<subseteq> set (elements IsPathSeparator p)"
    using foldl_clean_step_subset [of ?r "[]"] by simp
  then have free: "\<forall>x\<in>set (rev ?st). bslash \<notin> set x"
    using elements_sep_free [of _ IsPathSeparator p bslash]
    by (auto simp: IsPathSeparator_def)
  have "ToSlash (render ?r bslash (rev ?st)) = render ?r slash (rev ?st)"
  proof (cases ?r)
    case True
    then show ?thesis
      using ToSlash_join_elems [OF free] by (simp add: render_def ToSlash_bslash)
  next
    case False
    have "ToSlash ''.'' = ''.''" by (simp add: ToSlash_def bslash_def)
    with False show ?thesis
      using ToSlash_join_elems [OF free] by (simp add: render_def)
  qed
  then show ?thesis
    using False ne r
    by (simp add: filepath_Clean_def path_Clean_def Clean_def elements_ToSlash)
qed

lemma split_last_append:
  assumes "\<forall>c\<in>set seg. \<not> sep c" and "pre = [] \<or> sep (last pre)"
  shows "split_last sep (pre @ seg) = (pre, seg)"
proof -
  have a: "takeWhile (\<lambda>c. \<not> sep c) (rev pre) = []"
    using assms(2) by (cases "rev pre") (auto simp: last_rev [symmetric] simp del: last_rev)
  have b: "dropWhile (\<lambda>c. \<not> sep c) (rev pre) = rev pre"
    using assms(2) by (cases "rev pre") (auto simp: last_rev [symmetric] simp del: last_rev)
  have t: "takeWhile (\<lambda>c. \<not> sep c) (rev seg @ rev pre) = rev seg"
    using assms(1) by (subst takeWhile_append2) (auto simp: a)
  have d: "dropWhile (\<lambda>c. \<not> sep c) (rev seg @ rev pre) = rev pre"
    using assms(1) by (subst dropWhile_append2) (auto simp: b)
  show ?thesis using t d by (simp add: split_last_def)
qed

lemma Base_append:
  assumes "\<forall>c\<in>set seg. \<not> sep c" and "pre = [] \<or> sep (last pre)" and "seg \<noteq> []"
  shows "Base sep out (pre @ seg) = seg"
proof -
  have "\<not> sep (last seg)" using assms(1,3) by simp
  then have "dropWhile sep (rev seg @ rev pre) = rev seg @ rev pre"
    using assms(3) by (cases "rev seg") (auto simp: last_rev [symmetric] simp del: last_rev)
  then show ?thesis
    using assms by (simp add: Base_def split_last_append)
qed

lemma Clean_trailing_sep:
  assumes "d \<noteq> []" and "sep s"
  shows "Clean sep out (d @ [s]) = Clean sep out d"
  using assms by (simp add: Clean_def elements_append_sep clean_step_def)

lemma Clean_append_element:
  assumes c: "Clean sep out d = d" and s: "sep out"
    and free: "\<forall>c\<in>set seg. \<not> sep c"
    and normal: "seg \<noteq> []" "seg \<noteq> ''.''" "seg \<noteq> ''..''"
  shows "\<exists>pre. Clean sep out (d @ out # seg) = pre @ seg
            \<and> (pre = [] \<or> sep (last pre)) \<and> Clean sep out pre = d"
proof -
  have ne: "d \<noteq> []" using c by (auto simp: Clean_def)
  define r where "r = sep (hd d)"
  define st where "st = rev (foldl (clean_step r) [] (elements sep d))"
  have d: "d = render r out st" using c ne by (simp add: Clean_def r_def st_def)
  have noempty: "[] \<notin> set st"
    using foldl_clean_step_no_empty [of "[]"] by (simp add: st_def)
  have "elements sep (d @ out # seg) = elements sep d @ [seg]"
    using s free by (simp add: elements_append_sep elements_sep_free_single)
  then have st': "rev (foldl (clean_step r) [] (elements sep (d @ out # seg))) = st @ [seg]"
    using normal by (simp add: clean_step_def st_def)
  have hd': "sep (hd (d @ out # seg)) = r" using ne by (simp add: r_def)
  have C: "Clean sep out (d @ out # seg) = render r out (st @ [seg])"
    using st' hd' by (simp add: Clean_def)
  show ?thesis
  proof (cases "st = []")
    case True
    show ?thesis
    proof (cases r)
      case r: True
      have "d = [out]" using d True r by (simp add: render_def)
      moreover have "Clean sep out (d @ out # seg) = [out] @ seg"
        using C True r by (simp add: render_def)
      ultimately show ?thesis using s c by auto
    next
      case r: False
      have "d = ''.''" using d True r by (simp add: render_def)
      moreover have "Clean sep out (d @ out # seg) = [] @ seg"
        using C True r normal by (simp add: render_def)
      moreover have "Clean sep out [] = ''.''" by (simp add: Clean_def)
      ultimately show ?thesis by metis
    qed
  next
    case False
    have jne: "join_elems out st \<noteq> []"
      using False noempty by (intro join_elems_nonempty) auto
    have "render r out (st @ [seg]) = (render r out st @ [out]) @ seg"
      using False by (simp add: render_def join_elems_snoc)
    then have "Clean sep out (d @ out # seg) = (d @ [out]) @ seg" using C d by simp
    moreover have "Clean sep out (d @ [out]) = d"
      using Clean_trailing_sep [of d sep out out] ne s c by simp
    ultimately show ?thesis using s by (intro exI [of _ "d @ [out]"]) simp
  qed
qed


lemma Clean_nonempty: "Clean sep out p \<noteq> []"
  by (auto simp: Clean_def render_def join_elems_nonempty
      foldl_clean_step_no_empty [of "[]", simplified])

lemma HasPrefix_append: "HasPrefix (pre @ b) pre"
  by (simp add: HasPrefix_def)

lemma whiteout_name_eq:
  assumes "filepath_Clean dir = dir" and "\<forall>c\<in>set base. \<not> IsPathSeparator c"
  shows "whiteout_name dir base =
           path_Clean (ToSlash dir @ slash # whiteoutPrefix @ base)"
proof -
  have ne: "dir \<noteq> []" using assms(1) Clean_nonempty [of IsPathSeparator bslash dir]
    by (auto simp: filepath_Clean_def)
  have b: "bslash \<notin> set base" using assms(2) by (auto simp: IsPathSeparator_def)
  have "filepath_Join [dir, whiteoutPrefix @ base] =
          filepath_Clean (dir @ bslash # whiteoutPrefix @ base)"
    using ne by (cases dir) (simp_all add: filepath_Join_def Join_def filepath_Clean_def)
  moreover have "ToSlash (whiteoutPrefix @ base) = whiteoutPrefix @ base"
    using b by (intro ToSlash_id) (simp add: whiteoutPrefix_def bslash_def)
  ultimately show ?thesis
    by (simp add: whiteout_name_def ToSlash_Clean ToSlash_append ToSlash_bslash)
qed

lemma whiteout_roundtrip:
  assumes "filepath_Clean dir = dir" and "\<forall>c\<in>set base. \<not> IsPathSeparator c"
  shows "whiteout_decode (whiteout_name dir base) = Some (ToSlash dir, base)"
proof -
  let ?seg = "whiteoutPrefix @ base"
  have pc: "Clean is_slash slash (ToSlash dir) = ToSlash dir"
    using ToSlash_Clean [of dir] assms(1) by (simp add: path_Clean_def)
  have free: "\<forall>c\<in>set ?seg. \<not> is_slash c"
    using assms(2) by (auto simp: whiteoutPrefix_def is_slash_def IsPathSeparator_def slash_def)
  have normal: "?seg \<noteq> []" "?seg \<noteq> ''.''" "?seg \<noteq> ''..''"
    by (simp_all add: whiteoutPrefix_def)
  obtain pre where pre: "Clean is_slash slash (ToSlash dir @ slash # ?seg) = pre @ ?seg"
      "pre = [] \<or> is_slash (last pre)" "Clean is_slash slash pre = ToSlash dir"
  proof -
    have "is_slash slash" by (simp add: is_slash_def)
    from Clean_append_element [OF pc this free normal] show ?thesis using that by blast
  qed
  have n: "whiteout_name dir base = pre @ ?seg"
    using whiteout_name_eq [OF assms] pre(1) by (simp add: path_Clean_def)
  have "path_Base (pre @ ?seg) = ?seg"
    using Base_append [OF free pre(2) normal(1)] by (simp add: path_Base_def)
  moreover have "path_Dir (pre @ ?seg) = ToSlash dir"
    using split_last_append [OF free pre(2)] pre(3) by (simp add: path_Dir_def Dir_def)
  ultimately show ?thesis
    using n by (simp add: whiteout_decode_def HasPrefix_append)
qed

section \<open>Properties of the importer\<close>

lemma import_loop_error_size:
  "import_loop env fih c root i es ending sz0 tr0 = ((sz, Some e), tr) \<Longrightarrow> sz = 0"
proof (induction es arbitrary: i ending sz0 tr0 rule: length_induct)
  case (1 es)
  show ?case
  proof (cases es)
    case Nil
    with 1(2) show ?thesis by (auto split: if_splits)
  next
    case (Cons x rest)
    have IH: "\<And>es' i ending sz0 tr0. length es' < length es \<Longrightarrow>
        import_loop env fih c root i es' ending sz0 tr0 = ((sz, Some e), tr) \<Longrightarrow> sz = 0"
      using 1(1) by blast
    have r: "length rest < length es" "length ([]::entry list) < length es"
      using Cons by simp_all
    from 1(2) show ?thesis
      unfolding Cons
      by (auto split: if_splits option.splits prod.splits sum.splits
          dest: IH [OF r(1)] IH [OF r(2)])
  qed
qed

declare buf_Write.simps [simp del]

lemma whiteout_decode_None: "whiteout_decode n = None \<longleftrightarrow> \<not> HasPrefix (path_Base n) whiteoutPrefix"
  by (simp add: whiteout_decode_def Let_def)

lemma whiteout_decode_Some:
  "HasPrefix (path_Base n) whiteoutPrefix \<Longrightarrow>
     whiteout_decode n = Some (path_Dir n, drop (length whiteoutPrefix) (path_Base n))"
  by (simp add: whiteout_decode_def Let_def)

lemma call_no_EOF:
  "\<forall>tr ev. env tr ev \<noteq> Some EOF \<Longrightarrow> call env ev tr = (Some EOF, tr') \<Longrightarrow> False"
  by (auto simp: call_def)

lemma sink_Write_no_EOF:
  "\<forall>tr ev. env tr ev \<noteq> Some EOF \<Longrightarrow> sink_Write env s p tr = (Some EOF, tr') \<Longrightarrow> False"
  by (auto simp: sink_Write_def call_def split: sink.splits option.splits prod.splits)

lemma Flush_no_EOF:
  assumes "\<forall>tr ev. env tr ev \<noteq> Some EOF" and "berr b \<noteq> Some EOF"
    and "Flush env s b tr = (r, b', tr')"
  shows "r \<noteq> Some EOF \<and> berr b' \<noteq> Some EOF"
  using assms
  by (auto simp: Flush_def split: if_splits prod.splits option.splits
      dest: sink_Write_no_EOF [OF assms(1)])

lemma buf_Write_no_EOF:
  "\<forall>tr ev. env tr ev \<noteq> Some EOF \<Longrightarrow> berr b \<noteq> Some EOF
     \<Longrightarrow> buf_Write env s p b tr = (r, b', tr')
     \<Longrightarrow> r \<noteq> Some EOF \<and> berr b' \<noteq> Some EOF"
proof (induction env s p b tr rule: buf_Write.induct)
  case (1 env s p b tr)
  note env = 1(2)
  show ?case
  proof (cases "length p > defaultBufSize - length (buffered b) \<and> berr b = None")
    case False
    with 1(3,4) show ?thesis
      by (subst (asm) buf_Write.simps) (auto split: if_splits)
  next
    case big: True
    show ?thesis
    proof (cases "buffered b = []")
      case True
      with big 1(3,4) show ?thesis
        by (subst (asm) buf_Write.simps)
          (auto split: prod.splits option.splits dest: sink_Write_no_EOF [OF env])
    next
      case False
      let ?n = "defaultBufSize - length (buffered b)"
      obtain r1 b1 tr1 where f: "Flush env s (b\<lparr>buffered := buffered b @ take ?n p\<rparr>) tr = (r1, b1, tr1)"
        by (metis prod_cases3)
      have b1: "berr b1 \<noteq> Some EOF"
        using Flush_no_EOF [OF env _ f] 1(3) by simp
      have "buf_Write env s (drop ?n p) b1 tr1 = (r, b', tr')"
        using 1(4) big False f by (subst (asm) buf_Write.simps) (simp add: Let_def)
      then show ?thesis using 1(1) [OF big False refl f [symmetric] refl env b1] by simp
    qed
  qed
qed

lemma write_chunks_no_EOF:
  assumes "\<forall>tr ev. env tr ev \<noteq> Some EOF"
  shows "berr b \<noteq> Some EOF \<Longrightarrow> write_chunks env s cs b tr = (r, b', tr')
           \<Longrightarrow> r \<noteq> Some EOF \<and> berr b' \<noteq> Some EOF"
proof (induction cs arbitrary: b tr)
  case Nil
  then show ?case by simp
next
  case (Cons c cs)
  obtain r1 b1 tr1 where w: "buf_Write env s c b tr = (r1, b1, tr1)" by (metis prod_cases3)
  note ok = buf_Write_no_EOF [OF assms Cons.prems(1) w]
  show ?case
  proof (cases r1)
    case None
    with Cons.prems(2) w have "write_chunks env s cs b1 tr1 = (r, b', tr')" by simp
    with Cons.IH ok show ?thesis by blast
  next
    case (Some err)
    with Cons.prems(2) w ok show ?thesis by auto
  qed
qed

lemma WriteBackupStreamFromTarFile_EOF:
  assumes "\<forall>tr ev. env tr ev \<noteq> Some EOF" and "codec_err e = None"
    and "WriteBackupStreamFromTarFile env s e nxt Reset tr = (r, b', tr')"
  shows "(r = Some EOF \<longrightarrow> nxt = Some EOF) \<and> berr b' \<noteq> Some EOF"
proof -
  obtain r1 b1 tr1 where w: "write_chunks env s (chunks e) Reset tr = (r1, b1, tr1)"
    by (metis prod_cases3)
  have "r1 \<noteq> Some EOF \<and> berr b1 \<noteq> Some EOF"
    using write_chunks_no_EOF [OF assms(1) _ w] by (simp add: Reset_def)
  with assms(2,3) w show ?thesis
    by (auto simp: WriteBackupStreamFromTarFile_def split: option.splits)
qed

lemma keep_first_simps [simp]:
  "keep_first None e = e" "keep_first (Some x) e = Some x"
  by (simp_all add: keep_first_def)

lemma tarToBackupStream_EOF:
  assumes env: "\<forall>tr ev. env tr ev \<noteq> Some EOF" and "codec_err e = None"
    and "tarToBackupStreamWithMutatedFiles env root e nxt tr = (Some EOF, tr')"
  shows "nxt = Some EOF"
proof (cases "mutatedFiles (Name (hdr e))")
  case None
  obtain r b1 tr2 where w: "WriteBackupStreamFromTarFile env ToWriter e nxt Reset tr = (r, b1, tr2)"
    by (metis prod_cases3)
  obtain ferr b2 tr3 where f: "Flush env ToWriter b1 tr2 = (ferr, b2, tr3)"
    by (metis prod_cases3)
  note a = WriteBackupStreamFromTarFile_EOF [OF env assms(2) w]
  note b = Flush_no_EOF [OF env _ f]
  from assms(3) None w f a b show ?thesis
    by (cases r) (auto simp: tarToBackupStreamWithMutatedFiles_def)
next
  case (Some backupPath)
  obtain r0 tr1 where c: "call env (Create (filepath_Join [root, backupPath])) tr = (r0, tr1)"
    by (metis prod.exhaust)
  show ?thesis
  proof (cases r0)
    case (Some err)
    with assms(3) \<open>mutatedFiles (Name (hdr e)) = Some backupPath\<close> c show ?thesis
      by (auto simp: tarToBackupStreamWithMutatedFiles_def dest: call_no_EOF [OF env])
  next
    case None
    obtain r b1 tr2 where w: "WriteBackupStreamFromTarFile env ToBoth e nxt Reset tr1 = (r, b1, tr2)"
      by (metis prod_cases3)
    obtain ferr b2 tr3 where f: "Flush env ToBoth b1 tr2 = (ferr, b2, tr3)"
      by (metis prod_cases3)
    obtain cerr tr4 where c1: "call env BackupWriterClose tr3 = (cerr, tr4)"
      by (metis prod.exhaust)
    obtain cerr2 tr5 where c2: "call env FileClose tr4 = (cerr2, tr5)"
      by (metis prod.exhaust)
    note a = WriteBackupStreamFromTarFile_EOF [OF env assms(2) w]
    note b = Flush_no_EOF [OF env _ f]
    have k: "keep_first (keep_first (keep_first r ferr) cerr) cerr2 = Some EOF"
      using assms(3) \<open>mutatedFiles (Name (hdr e)) = Some backupPath\<close> c None w f c1 c2
      by (simp add: tarToBackupStreamWithMutatedFiles_def)
    show ?thesis
    proof (cases r)
      case (Some x)
      with k a show ?thesis by simp
    next
      case rn: None
      with a b have "ferr \<noteq> Some EOF" by simp
      moreover have "cerr \<noteq> Some EOF" "cerr2 \<noteq> Some EOF"
        using c1 c2 call_no_EOF [OF env] by blast+
      ultimately show ?thesis using k rn by (cases ferr; cases cerr; cases cerr2) auto
    qed
  qed
qed

lemma import_loop_Nil_ok:
  "import_loop env fih c root i [] err sz0 tr0 = ((sz, None), tr) \<Longrightarrow> err = EOF \<and> sz = sz0 \<and> tr = tr0"
  by (auto split: if_splits)

lemma Next_err_EOF: "Next_err rest ending = Some EOF \<Longrightarrow> rest = []"
  by (cases rest) (auto simp: Next_err_def)

lemma import_loop_size:
  assumes env: "\<forall>tr ev. env tr ev \<noteq> Some EOF"
  shows "\<forall>e\<in>set es. codec_err e = None \<Longrightarrow>
         import_loop env fih c root i es ending sz0 tr0 = ((sz, None), tr) \<Longrightarrow>
         sz = sz0 + sum_list (map (declared_size fih) (filter is_regular es))"
proof (induction es arbitrary: i sz0 tr0)
  case Nil
  then show ?case by (auto split: if_splits)
next
  case (Cons e rest)
  have wf: "\<forall>e\<in>set rest. codec_err e = None" and ce: "codec_err e = None"
    using Cons.prems(1) by simp_all
  note IH = Cons.IH [OF wf]
  note run = Cons.prems(2)
  have nd: "\<not> Done c i" using run by (auto split: if_splits)
  show ?case
  proof (cases "whiteout_decode (Name (hdr e))")
    case (Some db)
    then have nr: "\<not> is_regular e"
      by (simp add: is_regular_def is_deletion_marker_def whiteout_decode_None [symmetric])
    obtain r1 tr1 where c1: "call env (Remove (removed_path db)) tr0 = (r1, tr1)"
      by (metis prod.exhaust)
    from run nd Some c1 have "import_loop env fih c root (Suc i) rest ending sz0 tr1 = ((sz, None), tr)"
      by (cases r1) auto
    from IH [OF this] nr show ?thesis by simp
  next
    case None
    then have nm: "\<not> is_deletion_marker e"
      by (simp add: is_deletion_marker_def whiteout_decode_None)
    show ?thesis
    proof (cases "Typeflag (hdr e) = TypeLink")
      case True
      then have nr: "\<not> is_regular e" by (simp add: is_regular_def)
      obtain r1 tr1 where c1: "call env (AddLink (FromSlash (Name (hdr e)))
                                      (FromSlash (Linkname (hdr e)))) tr0 = (r1, tr1)"
        by (metis prod.exhaust)
      from run nd None True c1
      have "import_loop env fih c root (Suc i) rest ending sz0 tr1 = ((sz, None), tr)"
        by (cases r1) auto
      from IH [OF this] nr show ?thesis by simp
    next
      case False
      then have reg: "is_regular e" using nm by (simp add: is_regular_def)
      from run nd None False obtain name fileSize fileInfo
        where f: "fih (hdr e) = Inr (name, fileSize, fileInfo)"
        by (cases "fih (hdr e)") auto
      then have ds: "declared_size fih e = fileSize" by (simp add: declared_size_def)
      obtain r1 tr1 where c1: "call env (Add (FromSlash name) fileInfo) tr0 = (r1, tr1)"
        by (metis prod.exhaust)
      from run nd None False f c1 have r1: "r1 = None" by (cases r1) auto
      obtain r2 tr2 where t: "tarToBackupStreamWithMutatedFiles env root e
                                (Next_err rest ending) tr1 = (r2, tr2)"
        by (metis prod.exhaust)
      show ?thesis
      proof (cases r2)
        case None
        with run nd \<open>whiteout_decode (Name (hdr e)) = None\<close> False f c1 r1 t
        have "import_loop env fih c root (Suc i) rest ending (sz0 + fileSize) tr2 = ((sz, None), tr)"
          by simp
        from IH [OF this] reg ds show ?thesis by (simp add: add.assoc)
      next
        case (Some err)
        with run nd \<open>whiteout_decode (Name (hdr e)) = None\<close> False f c1 r1 t
        have l: "import_loop env fih c root (Suc i) [] err (sz0 + fileSize) tr2 = ((sz, None), tr)"
          by simp
        from import_loop_Nil_ok [OF l] have e: "err = EOF" and s: "sz = sz0 + fileSize" by simp_all
        from t Some e have "Next_err rest ending = Some EOF"
          using tarToBackupStream_EOF [OF env ce] by blast
        then have "rest = []" by (rule Next_err_EOF)
        with s reg ds show ?thesis by simp
      qed
    qed
  qed
qed

lemma stb_add_right:
  "signed_take_bit n (a + signed_take_bit n b) = signed_take_bit n (a + b)" for a b :: int
proof -
  have "signed_take_bit n (signed_take_bit n a + signed_take_bit n (signed_take_bit n b))
      = signed_take_bit n (a + signed_take_bit n b)"
    by (rule signed_take_bit_add)
  then show ?thesis by (simp add: signed_take_bit_add)
qed

lemma sint_sum_list:
  "sint (sum_list (ws :: 64 word list)) = signed_take_bit 63 (sum_list (map sint ws))"
proof (induction ws)
  case Nil
  then show ?case by simp
next
  case (Cons w ws)
  have "sint (w + sum_list ws) = signed_take_bit 63 (sint w + sint (sum_list ws))"
    by (simp add: sint_word_ariths)
  also have "\<dots> = signed_take_bit 63 (sint w + sum_list (map sint ws))"
    unfolding Cons.IH by (rule stb_add_right)
  finally show ?case by simp
qed

lemma sint_sum_list_exact:
  assumes "- (2 ^ 63) \<le> sum_list (map sint (ws :: 64 word list))"
    and "sum_list (map sint ws) < 2 ^ 63"
  shows "sint (sum_list ws) = sum_list (map sint ws)"
  using assms by (simp add: sint_sum_list signed_take_bit_int_eq_self)

text \<open>
  Claim C4.  Every error return written in \<open>ImportLayer\<close> is \<open>return 0, err\<close>
  (lemma \<open>import_loop_error_size\<close> for the loop), but the deferred close of the writer
  sets only the error: when the loop has ended cleanly and \<open>w.Close()\<close> fails, the size
  accumulated so far is returned with the error.  Importing the archive of one file of
  two bytes, a deletion marker and a hardlink with a writer whose close fails returns
  size 2 and the close error.
\<close>

theorem ImportLayer_close_error_size:
  "fst (ImportLayer close_fails basic_fih background (small_archive, EOF) layer_path []) =
     (2, Some (Failure ''close''))"
  by code_simp

text \<open>
  Claim C3, as stated, fails when a call made while a body is replayed reports \<open>io.EOF\<close>
  as its error.  The error of the deferred flush becomes \<open>nextErr\<close>, and the loop reads
  \<open>nextErr == io.EOF\<close> as the end of the archive: it stops without error and without
  looking at the entries that follow.  For the archive of two files of two and three
  bytes and a writer whose \<open>Write\<close> reports \<open>io.EOF\<close>, \<open>ImportLayer\<close> returns size 2 and
  no error, while the declared sizes of the regular entries add up to 5.
\<close>

theorem ImportLayer_size_accounting_counterexample:
  "fst (ImportLayer write_reports_EOF basic_fih background (two_files, EOF) layer_path []) =
     (2, None)
 \<and> sum_list (map (declared_size basic_fih) (filter is_regular two_files)) = 5
 \<and> map is_regular two_files = [True, True]
 \<and> map codec_err two_files = [None, None]"
  by code_simp

text \<open>
  Claim C3, amended (size accounting).  Take an archive whose bodies the codec accepts
  (no \<open>codec_err\<close>) and a run in which no call reports \<open>io.EOF\<close> as its error.  If
  \<open>ImportLayer\<close> returns without error, the returned size is the sum, in \<open>int64\<close>, of
  the declared sizes of the regular entries; deletion markers and hardlinks add nothing.
  When the sum of the sizes as integers fits \<open>int64\<close>, the returned size read as an
  integer is that sum.
\<close>

theorem ImportLayer_size_accounting:
  assumes "ImportLayer env fih c (es, ending) layerPath parentLayerPaths = ((sz, None), tr)"
    and "\<forall>e\<in>set es. codec_err e = None"
    and "\<forall>tr ev. env tr ev \<noteq> Some EOF"
  shows "sz = sum_list (map (declared_size fih) (filter is_regular es))
       \<and> (- (2 ^ 63) \<le> sum_list (map sint (map (declared_size fih) (filter is_regular es)))
          \<and> sum_list (map sint (map (declared_size fih) (filter is_regular es))) < 2 ^ 63
          \<longrightarrow> sint sz = sum_list (map sint (map (declared_size fih) (filter is_regular es))))"
proof -
  obtain home ident where sp: "filepath_Split layerPath = (home, ident)" by (metis prod.exhaust)
  obtain r1 tr1 where c1: "call env (NewLayerWriter home ident parentLayerPaths) [] = (r1, tr1)"
    by (metis prod.exhaust)
  obtain sz2 err tr2 where l: "import_loop env fih c layerPath 0 es ending 0 tr1 = ((sz2, err), tr2)"
    by (metis prod.exhaust)
  obtain err2 tr3 where c2: "call env Close tr2 = (err2, tr3)" by (metis prod.exhaust)
  from assms(1) sp c1 have r1: "r1 = None" by (cases r1) (auto simp: ImportLayer_def)
  from assms(1) sp c1 r1 l c2 have "sz2 = sz" "keep_first err err2 = None"
    by (simp_all add: ImportLayer_def)
  then have "err = None" by (cases err) simp_all
  with l \<open>sz2 = sz\<close> have "import_loop env fih c layerPath 0 es ending 0 tr1 = ((sz, None), tr2)"
    by simp
  from import_loop_size [OF assms(3) assms(2) this]
  have s: "sz = sum_list (map (declared_size fih) (filter is_regular es))" by simp
  show ?thesis using s sint_sum_list_exact by blast
qed

theorem ImportLayer_size_accounting_witness:
  "fst (ImportLayer all_ok basic_fih background (small_archive, EOF) layer_path []) = (2, None)
 \<and> sum_list (map (declared_size basic_fih) (filter is_regular small_archive)) = 2
 \<and> map is_regular small_archive = [True, False, False]"
proof -
  have r: "fst (ImportLayer all_ok basic_fih background (small_archive, EOF) layer_path []) =
      (2, None)"
    by code_simp
  then obtain tr where eq:
    "ImportLayer all_ok basic_fih background (small_archive, EOF) layer_path [] = ((2, None), tr)"
    by (metis prod.collapse)
  have wf: "\<forall>e\<in>set small_archive. codec_err e = None"
    by (simp add: small_archive_def file_entry_def marker_entry_def link_entry_def)
  have env: "\<forall>tr ev. all_ok tr ev \<noteq> Some EOF" by (simp add: all_ok_def)
  have k: "map is_regular small_archive = [True, False, False]" by code_simp
  from ImportLayer_size_accounting [OF eq wf env] r k show ?thesis by simp
qed

text \<open>
  Claim C6 (deletion markers by name only).  Whenever the base of an entry's name has
  the whiteout prefix, the iteration does one thing: it tells the writer to remove
  \<open>path.Join(dir(name), base(name))\<close> with the prefix stripped from the base, converted
  to the native form.  The header's type is not looked at: the statement holds for every
  \<open>Typeflag\<close>, the link type included, and neither \<open>AddLink\<close> nor \<open>Add\<close> is called.
\<close>

theorem deletion_marker_precedence:
  assumes "is_deletion_marker e" and "\<not> Done c i"
  shows "import_loop env fih c root i (e # rest) ending sz tr =
    (let name = Name (hdr e);
         p = FromSlash (path_Join [path_Dir name,
                                   drop (length whiteoutPrefix) (path_Base name)])
     in case env tr (Remove p) of
          Some err \<Rightarrow> ((0, Some err), tr @ [Remove p])
        | None \<Rightarrow> import_loop env fih c root (Suc i) rest ending sz (tr @ [Remove p]))"
  using assms
  by (simp add: is_deletion_marker_def whiteout_decode_Some removed_path_def call_def Let_def
      split: option.splits)

theorem deletion_marker_precedence_witness:
  "Typeflag (hdr (marker_entry ''d/.wh.x'' TypeLink)) = TypeLink
 \<and> import_loop all_ok basic_fih background layer_path 0
       [marker_entry ''d/.wh.x'' TypeLink] EOF 0 [] =
     ((0, None), [Remove (''d'' @ [bslash] @ ''x'')])"
proof -
  have m: "is_deletion_marker (marker_entry ''d/.wh.x'' TypeLink)" by code_simp
  have d: "\<not> Done background 0" by (simp add: background_def)
  have p: "FromSlash (path_Join [path_Dir ''d/.wh.x'',
                                 drop (length whiteoutPrefix) (path_Base ''d/.wh.x'')]) =
           ''d'' @ [bslash] @ ''x''"
    by code_simp
  show ?thesis
    using deletion_marker_precedence [OF m d, of all_ok basic_fih layer_path "[]" EOF 0 "[]"] p
    by (simp add: marker_entry_def all_ok_def background_def)
qed

lemma call_quiet:
  "\<forall>tr ev. ev \<noteq> Close \<longrightarrow> env tr ev = None \<Longrightarrow> ev \<noteq> Close \<Longrightarrow> call env ev tr = (None, tr @ [ev])"
  by (simp add: call_def)

lemma sink_Write_quiet:
  "\<forall>tr ev. ev \<noteq> Close \<longrightarrow> env tr ev = None \<Longrightarrow> fst (sink_Write env s p tr) = None"
  by (cases s) (simp_all add: sink_Write_def call_def)

lemma Flush_quiet:
  assumes "\<forall>tr ev. ev \<noteq> Close \<longrightarrow> env tr ev = None" and "berr b = None"
    and "Flush env s b tr = (r, b', tr')"
  shows "r = None \<and> berr b' = None"
  using assms(2,3) sink_Write_quiet [OF assms(1), of s "buffered b" tr]
  by (auto simp: Flush_def split: if_splits prod.splits option.splits)

lemma buf_Write_quiet:
  "\<forall>tr ev. ev \<noteq> Close \<longrightarrow> env tr ev = None \<Longrightarrow> berr b = None
     \<Longrightarrow> buf_Write env s p b tr = (r, b', tr')
     \<Longrightarrow> r = None \<and> berr b' = None"
proof (induction env s p b tr rule: buf_Write.induct)
  case (1 env s p b tr)
  note env = 1(2)
  show ?case
  proof (cases "length p > defaultBufSize - length (buffered b) \<and> berr b = None")
    case False
    with 1(3,4) show ?thesis
      by (subst (asm) buf_Write.simps) (auto split: if_splits)
  next
    case big: True
    show ?thesis
    proof (cases "buffered b = []")
      case True
      with big 1(3,4) sink_Write_quiet [OF env, of s p tr] show ?thesis
        by (subst (asm) buf_Write.simps) (auto split: prod.splits option.splits)
    next
      case False
      let ?n = "defaultBufSize - length (buffered b)"
      obtain r1 b1 tr1 where f: "Flush env s (b\<lparr>buffered := buffered b @ take ?n p\<rparr>) tr = (r1, b1, tr1)"
        by (metis prod_cases3)
      have b1: "berr b1 = None"
        using Flush_quiet [OF env _ f] 1(3) by simp
      have "buf_Write env s (drop ?n p) b1 tr1 = (r, b', tr')"
        using 1(4) big False f by (subst (asm) buf_Write.simps) (simp add: Let_def)
      then show ?thesis using 1(1) [OF big False refl f [symmetric] refl env b1] by simp
    qed
  qed
qed

lemma write_chunks_quiet:
  assumes "\<forall>tr ev. ev \<noteq> Close \<longrightarrow> env tr ev = None"
  shows "berr b = None \<Longrightarrow> write_chunks env s cs b tr = (r, b', tr')
           \<Longrightarrow> r = None \<and> berr b' = None"
proof (induction cs arbitrary: b tr)
  case Nil
  then show ?case by simp
next
  case (Cons c cs)
  obtain r1 b1 tr1 where w: "buf_Write env s c b tr = (r1, b1, tr1)" by (metis prod_cases3)
  note ok = buf_Write_quiet [OF assms Cons.prems(1) w]
  with Cons.prems(2) w have "write_chunks env s cs b1 tr1 = (r, b', tr')" by simp
  with Cons.IH ok show ?case by blast
qed

lemma WriteBackupStreamFromTarFile_quiet:
  assumes "\<forall>tr ev. ev \<noteq> Close \<longrightarrow> env tr ev = None" and "codec_err e = None"
  shows "\<exists>b' tr'. berr b' = None
           \<and> (\<forall>nxt. WriteBackupStreamFromTarFile env s e nxt Reset tr = (nxt, b', tr'))"
proof -
  obtain r1 b1 tr1 where w: "write_chunks env s (chunks e) Reset tr = (r1, b1, tr1)"
    by (metis prod_cases3)
  have "r1 = None \<and> berr b1 = None"
    using write_chunks_quiet [OF assms(1) _ w] by (simp add: Reset_def)
  with assms(2) w show ?thesis
    by (auto simp: WriteBackupStreamFromTarFile_def)
qed

lemma tarToBackupStream_quiet:
  assumes env: "\<forall>tr ev. ev \<noteq> Close \<longrightarrow> env tr ev = None" and ce: "codec_err e = None"
  shows "\<exists>tr'. \<forall>nxt. tarToBackupStreamWithMutatedFiles env root e nxt tr = (nxt, tr')"
proof (cases "mutatedFiles (Name (hdr e))")
  case None
  obtain b1 tr2 where w: "berr b1 = None"
      "\<And>nxt. WriteBackupStreamFromTarFile env ToWriter e nxt Reset tr = (nxt, b1, tr2)"
    using WriteBackupStreamFromTarFile_quiet [OF env ce, of ToWriter tr] by blast
  obtain ferr b2 tr3 where f: "Flush env ToWriter b1 tr2 = (ferr, b2, tr3)"
    by (metis prod_cases3)
  have "ferr = None" using Flush_quiet [OF env w(1) f] by simp
  with None w f show ?thesis
    by (auto simp: tarToBackupStreamWithMutatedFiles_def keep_first_def)
next
  case (Some backupPath)
  let ?tr1 = "tr @ [Create (filepath_Join [root, backupPath])]"
  obtain b1 tr2 where w: "berr b1 = None"
      "\<And>nxt. WriteBackupStreamFromTarFile env ToBoth e nxt Reset ?tr1 = (nxt, b1, tr2)"
    using WriteBackupStreamFromTarFile_quiet [OF env ce, of ToBoth ?tr1] by blast
  obtain ferr b2 tr3 where f: "Flush env ToBoth b1 tr2 = (ferr, b2, tr3)"
    by (metis prod_cases3)
  have "ferr = None" using Flush_quiet [OF env w(1) f] by simp
  with Some w f show ?thesis
    by (auto simp: tarToBackupStreamWithMutatedFiles_def keep_first_def call_quiet [OF env])
qed

lemma Next_err_cases:
  "(Next_err rest ending = None \<and> rest \<noteq> []) \<or> (Next_err rest ending = Some ending \<and> rest = [])"
  by (cases rest) (simp_all add: Next_err_def)



section \<open>Properties of the mutated-file guard\<close>

lemma writes_append [simp]: "writes (a @ b) = writes a @ writes b"
  by (induction a rule: writes.induct) simp_all

lemma backup_writes_append [simp]: "backup_writes (a @ b) = backup_writes a @ backup_writes b"
  by (induction a rule: backup_writes.induct) simp_all

lemma sink_events_append [simp]: "sink_events s (a @ b) \<longleftrightarrow> sink_events s a \<and> sink_events s b"
  by (simp add: sink_events_def)

lemma sink_events_Nil [simp]: "sink_events s []"
  by (simp add: sink_events_def)

lemma addsI:
  assumes "tr' = tr @ ws" and "sink_events s ws"
    and "(\<forall>tr ev. ev \<noteq> Close \<longrightarrow> env tr ev = None) \<Longrightarrow> berr b = None \<Longrightarrow>
           r = None \<and> berr b' = None
         \<and> concat (writes ws) @ buffered b' = buffered b @ p
         \<and> backup_writes ws = (if s = ToBoth then writes ws else [])"
  shows "adds env s b p tr (r, b', tr')"
  using assms by (auto simp: adds_def)

lemma sink_Write_events:
  "\<exists>ws. snd (sink_Write env s p tr) = tr @ ws \<and> sink_events s ws
     \<and> ((\<forall>tr ev. ev \<noteq> Close \<longrightarrow> env tr ev = None) \<longrightarrow>
          fst (sink_Write env s p tr) = None \<and> writes ws = [p]
        \<and> backup_writes ws = (if s = ToBoth then [p] else []))"
proof (cases s)
  case ToWriter
  then show ?thesis
    by (intro exI [of _ "[Write p]"])
      (simp add: sink_Write_def call_def sink_events_def sink_event_def)
next
  case ToBoth
  show ?thesis
  proof (cases "env tr (Write p)")
    case None
    with ToBoth show ?thesis
      by (intro exI [of _ "[Write p, BackupWrite p]"])
        (simp add: sink_Write_def call_def sink_events_def sink_event_def)
  next
    case (Some err)
    with ToBoth show ?thesis
      by (intro exI [of _ "[Write p]"])
        (auto simp: sink_Write_def call_def sink_events_def sink_event_def)
  qed
qed

lemma Flush_adds: "adds env s b [] tr (Flush env s b tr)"
proof (cases "berr b \<noteq> None \<or> buffered b = []")
  case True
  then show ?thesis
    by (auto simp: Flush_def intro!: addsI [where ws = "[]"])
next
  case False
  obtain r1 tr1 where sw: "sink_Write env s (buffered b) tr = (r1, tr1)" by (metis prod.exhaust)
  from sink_Write_events [of env s "buffered b" tr] sw obtain ws where ws:
    "tr1 = tr @ ws" "sink_events s ws"
    "(\<forall>tr ev. ev \<noteq> Close \<longrightarrow> env tr ev = None) \<longrightarrow>
          r1 = None \<and> writes ws = [buffered b]
        \<and> backup_writes ws = (if s = ToBoth then [buffered b] else [])"
    by auto
  show ?thesis
  proof (cases r1)
    case None
    with False sw have "Flush env s b tr = (None, b\<lparr>buffered := []\<rparr>, tr1)"
      by (simp add: Flush_def)
    with ws show ?thesis by (auto intro!: addsI [where ws = ws])
  next
    case (Some err)
    with False sw have "Flush env s b tr = (Some err, b\<lparr>berr := Some err\<rparr>, tr1)"
      by (simp add: Flush_def)
    with ws Some show ?thesis by (auto intro!: addsI [where ws = ws])
  qed
qed


lemma adds_trans:
  assumes "adds env s b p1 tr (r1, b1, tr1)" and "adds env s b1 p2 tr1 res"
  shows "adds env s b (p1 @ p2) tr res"
proof -
  obtain r2 b2 tr2 where res: "res = (r2, b2, tr2)" by (metis prod_cases3)
  from assms(1) obtain ws1 where 1: "tr1 = tr @ ws1" "sink_events s ws1"
    "(\<forall>tr ev. ev \<noteq> Close \<longrightarrow> env tr ev = None) \<and> berr b = None \<longrightarrow>
               r1 = None \<and> berr b1 = None
             \<and> concat (writes ws1) @ buffered b1 = buffered b @ p1
             \<and> backup_writes ws1 = (if s = ToBoth then writes ws1 else [])"
    by (auto simp: adds_def)
  from assms(2) res obtain ws2 where 2: "tr2 = tr1 @ ws2" "sink_events s ws2"
    "(\<forall>tr ev. ev \<noteq> Close \<longrightarrow> env tr ev = None) \<and> berr b1 = None \<longrightarrow>
               r2 = None \<and> berr b2 = None
             \<and> concat (writes ws2) @ buffered b2 = buffered b1 @ p2
             \<and> backup_writes ws2 = (if s = ToBoth then writes ws2 else [])"
    by (auto simp: adds_def)
  show ?thesis
    unfolding res
  proof (rule addsI [where ws = "ws1 @ ws2"])
    show "tr2 = tr @ ws1 @ ws2" using 1(1) 2(1) by simp
    show "sink_events s (ws1 @ ws2)" using 1(2) 2(2) by simp
    assume q: "\<forall>tr ev. ev \<noteq> Close \<longrightarrow> env tr ev = None" and e: "berr b = None"
    with 1(3) have a: "r1 = None" "berr b1 = None"
      "concat (writes ws1) @ buffered b1 = buffered b @ p1"
      "backup_writes ws1 = (if s = ToBoth then writes ws1 else [])" by simp_all
    with q 2(3) have c: "r2 = None" "berr b2 = None"
      "concat (writes ws2) @ buffered b2 = buffered b1 @ p2"
      "backup_writes ws2 = (if s = ToBoth then writes ws2 else [])" by simp_all
    have "concat (writes (ws1 @ ws2)) @ buffered b2 =
            concat (writes ws1) @ (concat (writes ws2) @ buffered b2)" by simp
    also have "\<dots> = (concat (writes ws1) @ buffered b1) @ p2" using c(3) by simp
    also have "\<dots> = buffered b @ p1 @ p2" using a(3) by simp
    finally show "r2 = None \<and> berr b2 = None
         \<and> concat (writes (ws1 @ ws2)) @ buffered b2 = buffered b @ p1 @ p2
         \<and> backup_writes (ws1 @ ws2) = (if s = ToBoth then writes (ws1 @ ws2) else [])"
      using a c by simp
  qed
qed

lemma adds_stop:
  assumes "adds env s b p1 tr (Some err, b1, tr1)"
  shows "adds env s b p tr (Some err, b1, tr1)"
  using assms by (auto simp: adds_def)

lemma buf_Write_adds: "adds env s b p tr (buf_Write env s p b tr)"
proof (induction env s p b tr rule: buf_Write.induct)
  case (1 env s p b tr)
  show ?case
  proof (cases "length p > defaultBufSize - length (buffered b) \<and> berr b = None")
    case False
    then have "buf_Write env s p b tr =
        (if berr b \<noteq> None then (berr b, b, tr) else (None, b\<lparr>buffered := buffered b @ p\<rparr>, tr))"
      by (subst buf_Write.simps, subst if_not_P [OF False]) simp
    then show ?thesis by (auto intro!: addsI [where ws = "[]"])
  next
    case big: True
    show ?thesis
    proof (cases "buffered b = []")
      case True
      obtain r1 tr1 where sw: "sink_Write env s p tr = (r1, tr1)" by (metis prod.exhaust)
      from sink_Write_events [of env s p tr] sw obtain ws where ws:
        "tr1 = tr @ ws" "sink_events s ws"
        "(\<forall>tr ev. ev \<noteq> Close \<longrightarrow> env tr ev = None) \<longrightarrow>
              r1 = None \<and> writes ws = [p]
            \<and> backup_writes ws = (if s = ToBoth then [p] else [])"
        by auto
      have "buf_Write env s p b tr =
          (case r1 of Some err \<Rightarrow> (Some err, b\<lparr>berr := Some err\<rparr>, tr1) | None \<Rightarrow> (None, b, tr1))"
        using True sw by (subst buf_Write.simps, subst if_P [OF big]) (simp split: option.splits)
      with ws True show ?thesis
        by (cases r1) (auto intro!: addsI [where ws = ws])
    next
      case False
      let ?n = "defaultBufSize - length (buffered b)"
      let ?b1 = "b\<lparr>buffered := buffered b @ take ?n p\<rparr>"
      obtain r1 b2 tr1 where f: "Flush env s ?b1 tr = (r1, b2, tr1)"
        by (metis prod_cases3)
      have eq: "buf_Write env s p b tr = buf_Write env s (drop ?n p) b2 tr1"
        using False f by (subst buf_Write.simps, subst if_P [OF big]) (simp add: Let_def)
      have a0: "adds env s b (take ?n p) tr (None, ?b1, tr)"
        by (rule addsI [where ws = "[]"]) simp_all
      have a1: "adds env s ?b1 [] tr (r1, b2, tr1)"
        using Flush_adds [of env s ?b1 tr] f by simp
      have a2: "adds env s b2 (drop ?n p) tr1 (buf_Write env s (drop ?n p) b2 tr1)"
        using 1 [OF big False refl f [symmetric] refl] .
      have "adds env s b (take ?n p @ [] @ drop ?n p) tr (buf_Write env s (drop ?n p) b2 tr1)"
        by (rule adds_trans [OF a0 adds_trans [OF a1 a2]])
      with eq show ?thesis by simp
    qed
  qed
qed

lemma write_chunks_adds: "adds env s b (concat cs) tr (write_chunks env s cs b tr)"
proof (induction cs arbitrary: b tr)
  case Nil
  show ?case by (auto intro!: addsI [where ws = "[]"])
next
  case (Cons c cs)
  obtain r1 b1 tr1 where w: "buf_Write env s c b tr = (r1, b1, tr1)" by (metis prod_cases3)
  have a1: "adds env s b c tr (r1, b1, tr1)" using buf_Write_adds [of env s b c tr] w by simp
  show ?case
  proof (cases r1)
    case None
    with w have "write_chunks env s (c # cs) b tr = write_chunks env s cs b1 tr1" by simp
    with adds_trans [OF a1 Cons [of b1 tr1]] show ?thesis by simp
  next
    case (Some err)
    with w have "write_chunks env s (c # cs) b tr = (Some err, b1, tr1)" by simp
    with a1 Some adds_stop show ?thesis by metis
  qed
qed

lemma WriteBackupStreamFromTarFile_snd:
  "snd (WriteBackupStreamFromTarFile env s e nxt b tr) = snd (write_chunks env s (chunks e) b tr)"
  by (auto simp: WriteBackupStreamFromTarFile_def split: prod.splits option.splits)

lemma Flush_quiet_empty:
  assumes "\<forall>tr ev. ev \<noteq> Close \<longrightarrow> env tr ev = None" and "berr b = None"
  shows "buffered (fst (snd (Flush env s b tr))) = []"
  using assms(2) sink_Write_quiet [OF assms(1), of s "buffered b" tr]
  by (auto simp: Flush_def split: prod.splits option.splits)

text \<open>The body of an entry replayed and flushed: the events, and what they carry.\<close>

lemma replay_events:
  assumes w: "WriteBackupStreamFromTarFile env s e nxt Reset tr = (r, b1, tr1)"
    and f: "Flush env s b1 tr1 = (ferr, b2, tr2)"
  shows "\<exists>ws. tr2 = tr @ ws \<and> sink_events s ws
           \<and> ((\<forall>tr ev. ev \<noteq> Close \<longrightarrow> env tr ev = None) \<longrightarrow>
                concat (writes ws) = concat (chunks e)
              \<and> backup_writes ws = (if s = ToBoth then writes ws else []))"
proof -
  obtain r0 where wc: "write_chunks env s (chunks e) Reset tr = (r0, b1, tr1)"
    using WriteBackupStreamFromTarFile_snd [of env s e nxt Reset tr] w
    by (metis prod.collapse snd_conv)
  have a1: "adds env s Reset (concat (chunks e)) tr (r0, b1, tr1)"
    using write_chunks_adds [of env s Reset "chunks e" tr] wc by simp
  have a2: "adds env s b1 [] tr1 (ferr, b2, tr2)"
    using Flush_adds [of env s b1 tr1] f by simp
  have "adds env s Reset (concat (chunks e) @ []) tr (ferr, b2, tr2)"
    by (rule adds_trans [OF a1 a2])
  then obtain ws where ws: "tr2 = tr @ ws" "sink_events s ws"
    "(\<forall>tr ev. ev \<noteq> Close \<longrightarrow> env tr ev = None) \<longrightarrow>
         concat (writes ws) @ buffered b2 = concat (chunks e)
       \<and> backup_writes ws = (if s = ToBoth then writes ws else [])"
    by (auto simp: adds_def Reset_def)
  have "buffered b2 = []" if q: "\<forall>tr ev. ev \<noteq> Close \<longrightarrow> env tr ev = None"
  proof -
    from a1 q have "berr b1 = None" by (auto simp: adds_def Reset_def)
    from Flush_quiet_empty [OF q this, of s tr1] f show ?thesis by simp
  qed
  with ws show ?thesis by auto
qed


lemma tarToBackupStream_events:
  assumes "tarToBackupStreamWithMutatedFiles env root e nxt tr = (r, tr')"
  shows "(\<forall>backupPath. mutatedFiles (Name (hdr e)) = Some backupPath \<longrightarrow>
           (\<exists>ws. sink_events ToBoth ws
              \<and> tr' = tr @ Create (filepath_Join [root, backupPath]) # ws
                      @ (if env tr (Create (filepath_Join [root, backupPath])) = None
                         then [BackupWriterClose, FileClose] else [])
              \<and> (env tr (Create (filepath_Join [root, backupPath])) \<noteq> None \<longrightarrow> ws = [])
              \<and> ((\<forall>tr ev. ev \<noteq> Close \<longrightarrow> env tr ev = None) \<longrightarrow>
                    backup_writes ws = writes ws
                  \<and> concat (writes ws) = concat (chunks e))))
       \<and> (mutatedFiles (Name (hdr e)) = None \<longrightarrow>
           (\<exists>ws. sink_events ToWriter ws \<and> tr' = tr @ ws
              \<and> ((\<forall>tr ev. ev \<noteq> Close \<longrightarrow> env tr ev = None) \<longrightarrow>
                    concat (writes ws) = concat (chunks e))))"
proof (cases "mutatedFiles (Name (hdr e))")
  case None
  obtain r1 b1 tr1 where w: "WriteBackupStreamFromTarFile env ToWriter e nxt Reset tr = (r1, b1, tr1)"
    by (metis prod_cases3)
  obtain ferr b2 tr2 where f: "Flush env ToWriter b1 tr1 = (ferr, b2, tr2)"
    by (metis prod_cases3)
  have "tr' = tr2" using assms None w f by (simp add: tarToBackupStreamWithMutatedFiles_def)
  with replay_events [OF w f] None show ?thesis by auto
next
  case (Some backupPath)
  let ?c = "Create (filepath_Join [root, backupPath])"
  show ?thesis
  proof (cases "env tr ?c")
    case err: (Some x)
    with assms Some have "tr' = tr @ [?c]"
      by (simp add: tarToBackupStreamWithMutatedFiles_def call_def)
    with Some err show ?thesis by (auto intro!: exI [of _ "[]"])
  next
    case None
    obtain r1 b1 tr1 where w:
      "WriteBackupStreamFromTarFile env ToBoth e nxt Reset (tr @ [?c]) = (r1, b1, tr1)"
      by (metis prod_cases3)
    obtain ferr b2 tr2 where f: "Flush env ToBoth b1 tr1 = (ferr, b2, tr2)"
      by (metis prod_cases3)
    have "tr' = tr2 @ [BackupWriterClose, FileClose]"
      using assms Some None w f by (simp add: tarToBackupStreamWithMutatedFiles_def call_def)
    with replay_events [OF w f] Some None show ?thesis by auto
  qed
qed



section \<open>Properties of the exporter\<close>

lemma entry_event_distinct [simp]:
  "entry_event e \<noteq> TarClose" "entry_event e \<noteq> ReaderClose"
  "TarClose \<noteq> entry_event e" "ReaderClose \<noteq> entry_event e"
  by (simp_all add: entry_event_def split: option.splits)

lemma all_le_Suc: "(\<forall>j\<le>Suc n. P j) \<longleftrightarrow> P 0 \<and> (\<forall>j\<le>n. P (Suc j))"
  by (metis Suc_le_mono le0 not0_implies_Suc)

lemma writeTarFromLayer_events:
  "writeTarFromLayer env c i es ending tr0 = (err, tr5) \<Longrightarrow>
   \<exists>evs. tr5 = tr0 @ evs \<and> ReaderClose \<notin> set evs
     \<and> (TarClose \<in> set evs \<longleftrightarrow>
          (\<forall>j\<le>length es. \<not> Done c (i + j)) \<and> ending = EOF \<and> all_written env tr0 es)
     \<and> (TarClose \<in> set evs \<longrightarrow>
          evs = map entry_event es @ [TarClose]
        \<and> err = env (tr0 @ map entry_event es) TarClose)"
proof (induction es arbitrary: i tr0)
  case Nil
  then show ?case by (auto simp: call_def split: if_splits)
next
  case (Cons e rest)
  show ?case
  proof (cases "Done c i")
    case True
    with Cons.prems have "tr5 = tr0" by simp
    moreover have "\<not> (\<forall>j\<le>length (e # rest). \<not> Done c (i + j))" using True by auto
    ultimately show ?thesis by (intro exI [of _ "[]"]) simp
  next
    case nd: False
    show ?thesis
    proof (cases "env tr0 (entry_event e)")
      case (Some x)
      with Cons.prems nd have "tr5 = tr0 @ [entry_event e]" by (simp add: call_def)
      with Some show ?thesis by (intro exI [of _ "[entry_event e]"]) simp
    next
      case None
      with Cons.prems nd
      have "writeTarFromLayer env c (Suc i) rest ending (tr0 @ [entry_event e]) = (err, tr5)"
        by (simp add: call_def)
      from Cons.IH [OF this] obtain evs where evs:
        "tr5 = (tr0 @ [entry_event e]) @ evs" "ReaderClose \<notin> set evs"
        "TarClose \<in> set evs \<longleftrightarrow>
          (\<forall>j\<le>length rest. \<not> Done c (Suc i + j)) \<and> ending = EOF
          \<and> all_written env (tr0 @ [entry_event e]) rest"
        "TarClose \<in> set evs \<longrightarrow>
          evs = map entry_event rest @ [TarClose]
        \<and> err = env ((tr0 @ [entry_event e]) @ map entry_event rest) TarClose"
        by blast
      have q: "(\<forall>j\<le>length (e # rest). \<not> Done c (i + j)) \<longleftrightarrow>
                 (\<forall>j\<le>length rest. \<not> Done c (Suc i + j))"
        using nd by (simp add: all_le_Suc)
      show ?thesis
        using evs None q by (intro exI [of _ "entry_event e # evs"]) auto
    qed
  qed
qed

lemma ExportLayer_opened:
  assumes "opened env path parentLayerPaths"
  shows "ExportLayer env c (es, ending) path parentLayerPaths =
    (case writeTarFromLayer env c 0 es ending (opening_events path parentLayerPaths) of
       (err, tr5) \<Rightarrow>
         (if err \<noteq> None then err else env tr5 ReaderClose,
          tr5 @ [ReaderClose, DeactivateLayer path]))"
  using assms
  by (simp add: ExportLayer_def opened_def opening_events_def call_def split: prod.splits)

lemma opening_events_distinct [simp]:
  "TarClose \<notin> set (opening_events path ps)" "ReaderClose \<notin> set (opening_events path ps)"
  by (simp_all add: opening_events_def)

lemma writeTarFromLayer_to_end:
  "\<forall>k\<le>length es. \<not> Done c (i + k) \<Longrightarrow> all_written env tr0 es \<Longrightarrow>
   writeTarFromLayer env c i es ending tr0 =
     (if ending = EOF
      then (env (tr0 @ map entry_event es) TarClose, tr0 @ map entry_event es @ [TarClose])
      else (Some ending, tr0 @ map entry_event es))"
proof (induction es arbitrary: i tr0)
  case Nil
  then show ?case by (simp add: call_def)
next
  case (Cons e es)
  have nd: "\<not> Done c i" using Cons.prems(1) by (metis add.right_neutral le0)
  have a: "\<forall>k\<le>length es. \<not> Done c (Suc i + k)"
    using Cons.prems(1) by (metis Suc_le_mono add_Suc_shift length_Cons)
  have w: "env tr0 (entry_event e) = None" "all_written env (tr0 @ [entry_event e]) es"
    using Cons.prems(2) by simp_all
  show ?case using nd w Cons.IH [OF a w(2)] by (simp add: call_def)
qed

lemma writeTarFromLayer_cancelled:
  "\<forall>k<j. \<not> Done c (i + k) \<Longrightarrow> Done c (i + j) \<Longrightarrow> j \<le> length es \<Longrightarrow>
   all_written env tr0 (take j es) \<Longrightarrow>
   writeTarFromLayer env c i es ending tr0 =
     (Some (ctx_Err c), tr0 @ map entry_event (take j es))"
proof (induction j arbitrary: es i tr0)
  case 0
  then show ?case by (cases es) simp_all
next
  case (Suc j)
  from Suc.prems(3) obtain e rest where es: "es = e # rest" by (cases es) auto
  have nd: "\<not> Done c i" using Suc.prems(1) by (metis add.right_neutral zero_less_Suc)
  have a: "\<forall>k<j. \<not> Done c (Suc i + k)" using Suc.prems(1) by auto
  have b: "Done c (Suc i + j)" using Suc.prems(2) by simp
  have c: "j \<le> length rest" using Suc.prems(3) es by simp
  have w: "env tr0 (entry_event e) = None" "all_written env (tr0 @ [entry_event e]) (take j rest)"
    using Suc.prems(4) es by simp_all
  show ?case using es nd w Suc.IH [OF a b c w(2)] by (simp add: call_def)
qed

lemma writeTarFromLayer_entry_fails:
  "\<forall>k\<le>j. \<not> Done c (i + k) \<Longrightarrow> j < length es \<Longrightarrow>
   all_written env tr0 (take j es) \<Longrightarrow>
   env (tr0 @ map entry_event (take j es)) (entry_event (es ! j)) = Some err \<Longrightarrow>
   writeTarFromLayer env c i es ending tr0 =
     (Some err, tr0 @ map entry_event (take (Suc j) es))"
proof (induction j arbitrary: es i tr0)
  case 0
  then obtain e rest where es: "es = e # rest" by (cases es) auto
  with 0 show ?case by (simp add: call_def)
next
  case (Suc j)
  from Suc.prems(2) obtain e rest where es: "es = e # rest" by (cases es) auto
  have nd: "\<not> Done c i" using Suc.prems(1) by (metis add.right_neutral le0)
  have a: "\<forall>k\<le>j. \<not> Done c (Suc i + k)"
    using Suc.prems(1) by (metis Suc_le_mono add_Suc_shift)
  have c: "j < length rest" using Suc.prems(2) es by simp
  have w: "env tr0 (entry_event e) = None" "all_written env (tr0 @ [entry_event e]) (take j rest)"
    using Suc.prems(3) es by simp_all
  have f: "env ((tr0 @ [entry_event e]) @ map entry_event (take j rest))
             (entry_event (rest ! j)) = Some err"
    using Suc.prems(4) es by simp
  show ?case using es nd w Suc.IH [OF a c w(2) f] by (simp add: call_def)
qed

text \<open>
  Claim C8 (export error discipline).  Take a run of \<open>ExportLayer\<close> in which the layer
  reader has been opened.  Whatever the entry loop does, the run ends with the close of
  the reader, once, followed by the deferred deactivation.  The trailer is written if and
  only if the loop has ended cleanly: no poll found the context done, every entry was
  written without error and the reader ended on \<open>io.EOF\<close>.  The loop can end in four
  ways, and in each the run and the returned error are these:
  the context is found done at the head of iteration \<open>j\<close>, after \<open>j\<close> entries were
  written: no trailer, and the context's error is returned, whatever the close reports;
  writing entry \<open>j\<close> fails: no trailer, and that error is returned, whatever the close
  reports;
  the reader ends on an error other than \<open>io.EOF\<close>: no trailer, and that error is
  returned, whatever the close reports;
  the reader ends on \<open>io.EOF\<close>: the trailer is written, and the error returned is the
  error of writing the trailer if there is one, and the error of the reader's close only
  otherwise.
\<close>

theorem ExportLayer_error_discipline:
  assumes "opened env path parentLayerPaths"
  shows "(\<exists>pre. snd (ExportLayer env c (es, ending) path parentLayerPaths) =
                  pre @ [ReaderClose, DeactivateLayer path] \<and> ReaderClose \<notin> set pre)
       \<and> (TarClose \<in> set (snd (ExportLayer env c (es, ending) path parentLayerPaths)) \<longleftrightarrow>
            (\<forall>k\<le>length es. \<not> Done c k) \<and> ending = EOF
            \<and> all_written env (opening_events path parentLayerPaths) es)
       \<and> (\<forall>j. j \<le> length es \<and> (\<forall>k<j. \<not> Done c k) \<and> Done c j
                \<and> all_written env (opening_events path parentLayerPaths) (take j es) \<longrightarrow>
              ExportLayer env c (es, ending) path parentLayerPaths =
                (Some (ctx_Err c),
                 opening_events path parentLayerPaths @ map entry_event (take j es)
                   @ [ReaderClose, DeactivateLayer path]))
       \<and> (\<forall>j err. j < length es \<and> (\<forall>k\<le>j. \<not> Done c k)
                \<and> all_written env (opening_events path parentLayerPaths) (take j es)
                \<and> env (opening_events path parentLayerPaths @ map entry_event (take j es))
                      (entry_event (es ! j)) = Some err \<longrightarrow>
              ExportLayer env c (es, ending) path parentLayerPaths =
                (Some err,
                 opening_events path parentLayerPaths @ map entry_event (take (Suc j) es)
                   @ [ReaderClose, DeactivateLayer path]))
       \<and> ((\<forall>k\<le>length es. \<not> Done c k)
              \<and> all_written env (opening_events path parentLayerPaths) es
              \<and> ending \<noteq> EOF \<longrightarrow>
              ExportLayer env c (es, ending) path parentLayerPaths =
                (Some ending,
                 opening_events path parentLayerPaths @ map entry_event es
                   @ [ReaderClose, DeactivateLayer path]))
       \<and> ((\<forall>k\<le>length es. \<not> Done c k)
              \<and> all_written env (opening_events path parentLayerPaths) es
              \<and> ending = EOF \<longrightarrow>
              ExportLayer env c (es, ending) path parentLayerPaths =
                ((case env (opening_events path parentLayerPaths @ map entry_event es)
                         TarClose of
                    Some err \<Rightarrow> Some err
                  | None \<Rightarrow>
                      env (opening_events path parentLayerPaths @ map entry_event es
                             @ [TarClose]) ReaderClose),
                 opening_events path parentLayerPaths @ map entry_event es
                   @ [TarClose, ReaderClose, DeactivateLayer path]))"
proof -
  let ?o = "opening_events path parentLayerPaths"
  let ?X = "ExportLayer env c (es, ending) path parentLayerPaths"
  note X = ExportLayer_opened [OF assms, of c es ending]
  obtain err tr5 where w: "writeTarFromLayer env c 0 es ending ?o = (err, tr5)"
    by (metis prod.exhaust)
  from writeTarFromLayer_events [OF w] obtain evs where evs:
    "tr5 = ?o @ evs" "ReaderClose \<notin> set evs"
    "TarClose \<in> set evs \<longleftrightarrow>
          (\<forall>j\<le>length es. \<not> Done c (0 + j)) \<and> ending = EOF \<and> all_written env ?o es"
    by blast
  have tr: "snd ?X = tr5 @ [ReaderClose, DeactivateLayer path]"
    using w by (simp add: X)
  have A: "\<exists>pre. snd ?X = pre @ [ReaderClose, DeactivateLayer path] \<and> ReaderClose \<notin> set pre"
    using tr evs(1,2) by (intro exI [of _ tr5]) simp
  have B: "TarClose \<in> set (snd ?X) \<longleftrightarrow>
            (\<forall>k\<le>length es. \<not> Done c k) \<and> ending = EOF \<and> all_written env ?o es"
    using tr evs(1,3) by simp
  have C: "?X = (Some (ctx_Err c),
                 ?o @ map entry_event (take j es) @ [ReaderClose, DeactivateLayer path])"
    if "j \<le> length es \<and> (\<forall>k<j. \<not> Done c k) \<and> Done c j \<and> all_written env ?o (take j es)"
    for j
  proof -
    have "writeTarFromLayer env c 0 es ending ?o =
            (Some (ctx_Err c), ?o @ map entry_event (take j es))"
      using that by (intro writeTarFromLayer_cancelled) simp_all
    then show ?thesis by (simp add: X)
  qed
  have D: "?X = (Some err',
                 ?o @ map entry_event (take (Suc j) es) @ [ReaderClose, DeactivateLayer path])"
    if "j < length es \<and> (\<forall>k\<le>j. \<not> Done c k) \<and> all_written env ?o (take j es)
          \<and> env (?o @ map entry_event (take j es)) (entry_event (es ! j)) = Some err'"
    for j err'
  proof -
    have "writeTarFromLayer env c 0 es ending ?o =
            (Some err', ?o @ map entry_event (take (Suc j) es))"
      using that by (intro writeTarFromLayer_entry_fails) simp_all
    then show ?thesis by (simp add: X)
  qed
  have E: "writeTarFromLayer env c 0 es ending ?o =
     (if ending = EOF
      then (env (?o @ map entry_event es) TarClose, ?o @ map entry_event es @ [TarClose])
      else (Some ending, ?o @ map entry_event es))"
    if "(\<forall>k\<le>length es. \<not> Done c k) \<and> all_written env ?o es"
    using that by (intro writeTarFromLayer_to_end) simp_all
  have F: "?X = (Some ending, ?o @ map entry_event es @ [ReaderClose, DeactivateLayer path])"
    if "(\<forall>k\<le>length es. \<not> Done c k) \<and> all_written env ?o es \<and> ending \<noteq> EOF"
    using that E by (simp add: X)
  have G: "?X = ((case env (?o @ map entry_event es) TarClose of
                    Some err \<Rightarrow> Some err
                  | None \<Rightarrow> env (?o @ map entry_event es @ [TarClose]) ReaderClose),
                 ?o @ map entry_event es @ [TarClose, ReaderClose, DeactivateLayer path])"
    if "(\<forall>k\<le>length es. \<not> Done c k) \<and> all_written env ?o es \<and> ending = EOF"
    using that E
    by (cases "env (?o @ map entry_event es) TarClose")
      (simp_all add: ExportLayer_opened [OF assms])
  from A B C D F G show ?thesis by blast
qed

theorem ExportLayer_error_discipline_witness:
  "ExportLayer reader_close_fails background (small_layer, EOF) layer_path [] =
     (Some (Failure ''close''),
      opening_events layer_path [] @ map entry_event small_layer
        @ [TarClose, ReaderClose, DeactivateLayer layer_path])
 \<and> ExportLayer second_entry_fails background (small_layer, EOF) layer_path [] =
     (Some (Failure ''disk full''),
      opening_events layer_path [] @ map entry_event (take (Suc 1) small_layer)
        @ [ReaderClose, DeactivateLayer layer_path])
 \<and> ExportLayer reader_close_fails (cancel_at 1) (small_layer, EOF) layer_path [] =
     (Some Canceled,
      opening_events layer_path [] @ map entry_event (take 1 small_layer)
        @ [ReaderClose, DeactivateLayer layer_path])
 \<and> ExportLayer reader_close_fails background (small_layer, Failure ''read'') layer_path [] =
     (Some (Failure ''read''),
      opening_events layer_path [] @ map entry_event small_layer
        @ [ReaderClose, DeactivateLayer layer_path])"
proof -
  let ?o = "opening_events layer_path []"
  have o1: "opened reader_close_fails layer_path []"
    by (simp add: opened_def reader_close_fails_def)
  have o2: "opened second_entry_fails layer_path []"
    by (simp add: opened_def second_entry_fails_def)
  have nd: "\<forall>k\<le>length small_layer. \<not> Done background k" by (simp add: background_def)
  have aw: "all_written reader_close_fails ?o small_layer"
    by (simp add: small_layer_def reader_close_fails_def entry_event_def)
  have aw1: "all_written reader_close_fails ?o (take 1 small_layer)"
    by (simp add: small_layer_def reader_close_fails_def entry_event_def)
  have aw2: "all_written second_entry_fails ?o (take 1 small_layer)"
    by (simp add: small_layer_def second_entry_fails_def entry_event_def)
  have f2: "second_entry_fails (?o @ map entry_event (take 1 small_layer))
              (entry_event (small_layer ! 1)) = Some (Failure ''disk full'')"
    by (simp add: small_layer_def second_entry_fails_def entry_event_def)
  have c1: "\<forall>k<1. \<not> Done (cancel_at 1) k" "Done (cancel_at 1) 1"
    by (simp_all add: cancel_at_def)
  have nd1: "\<forall>k\<le>1. \<not> Done background k" by (simp add: background_def)
  have len: "(1::nat) \<le> length small_layer" "(1::nat) < length small_layer"
    by (simp_all add: small_layer_def)
  note T1 = ExportLayer_error_discipline [OF o1, of background small_layer EOF]
  note T2 = ExportLayer_error_discipline [OF o2, of background small_layer EOF]
  note T3 = ExportLayer_error_discipline [OF o1, of "cancel_at 1" small_layer EOF]
  note T4 = ExportLayer_error_discipline [OF o1, of background small_layer "Failure ''read''"]
  have a: "ExportLayer reader_close_fails background (small_layer, EOF) layer_path [] =
     (Some (Failure ''close''),
      ?o @ map entry_event small_layer @ [TarClose, ReaderClose, DeactivateLayer layer_path])"
    using T1 nd aw by (simp add: reader_close_fails_def)
  have b: "ExportLayer second_entry_fails background (small_layer, EOF) layer_path [] =
     (Some (Failure ''disk full''),
      ?o @ map entry_event (take (Suc 1) small_layer)
        @ [ReaderClose, DeactivateLayer layer_path])"
    using T2 len(2) nd1 aw2 f2 by blast
  have c: "ExportLayer reader_close_fails (cancel_at 1) (small_layer, EOF) layer_path [] =
     (Some Canceled,
      ?o @ map entry_event (take 1 small_layer) @ [ReaderClose, DeactivateLayer layer_path])"
  proof -
    have "ExportLayer reader_close_fails (cancel_at 1) (small_layer, EOF) layer_path [] =
     (Some (ctx_Err (cancel_at 1)),
      ?o @ map entry_event (take 1 small_layer) @ [ReaderClose, DeactivateLayer layer_path])"
      using T3 len(1) c1 aw1 by blast
    then show ?thesis by (simp add: ctx_Err_def cancel_at_def)
  qed
  have d: "ExportLayer reader_close_fails background (small_layer, Failure ''read'')
             layer_path [] =
     (Some (Failure ''read''),
      ?o @ map entry_event small_layer @ [ReaderClose, DeactivateLayer layer_path])"
  proof -
    have "Failure ''read'' \<noteq> EOF" by simp
    with T4 nd aw show ?thesis by blast
  qed
  from a b c d show ?thesis by blast
qed

section \<open>Properties of export followed by import\<close>

lemma join_elements:
  "\<forall>c\<in>set p. sep c \<longrightarrow> c = out \<Longrightarrow> join_elems out (elements sep p) = p"
proof (induction p)
  case Nil
  then show ?case by simp
next
  case (Cons c cs)
  obtain x xs where e: "elements sep cs = x # xs" by (cases "elements sep cs") auto
  from Cons have IH: "join_elems out (x # xs) = cs" using e by simp
  show ?case
  proof (cases "sep c")
    case True
    with Cons.prems have "c = out" by simp
    with True e IH show ?thesis by simp
  next
    case False
    with e IH show ?thesis by (cases xs) auto
  qed
qed

lemma elements_join:
  "ys \<noteq> [] \<Longrightarrow> \<forall>y\<in>set ys. \<forall>c\<in>set y. \<not> sep c \<Longrightarrow> sep out \<Longrightarrow>
     elements sep (join_elems out ys) = ys"
proof (induction out ys rule: join_elems.induct)
  case (1 s)
  then show ?case by simp
next
  case (2 s x)
  then show ?case by (simp add: elements_sep_free_single)
next
  case (3 s x y ys)
  then show ?case by (simp add: elements_append_sep elements_sep_free_single)
qed

lemma foldl_clean_step_normal:
  "list_all normal_element ys \<Longrightarrow> foldl (clean_step r) st ys = rev ys @ st"
  by (induction ys arbitrary: st) (auto simp: clean_step_def normal_element_def)

lemma Clean_join_normal:
  assumes "ys \<noteq> []" and "list_all normal_element ys"
    and "\<forall>y\<in>set ys. \<forall>c\<in>set y. \<not> sep c" and "sep out"
  shows "Clean sep out (join_elems out ys) = join_elems out ys"
proof -
  obtain y ys' where ys: "ys = y # ys'" using assms(1) by (cases ys) auto
  have y: "y \<noteq> []" "\<not> sep (hd y)"
    using assms(2,3) ys by (auto simp: normal_element_def)
  have hd: "hd (join_elems out ys) = hd y" "join_elems out ys \<noteq> []"
    using ys y by (cases ys'; simp)+
  show ?thesis
    using hd y assms
    by (simp add: Clean_def elements_join foldl_clean_step_normal render_def)
qed

lemma FromSlash_ToSlash: "slash \<notin> set n \<Longrightarrow> FromSlash (ToSlash n) = n"
  by (induction n) (auto simp: FromSlash_def ToSlash_def)

lemma FromSlash_id: "slash \<notin> set n \<Longrightarrow> FromSlash n = n"
  by (induction n) (auto simp: FromSlash_def)

lemma path_Join_dot:
  assumes "normal_element x" and "\<forall>c\<in>set x. \<not> IsPathSeparator c"
  shows "path_Join [''.'', x] = x"
proof -
  have f: "\<forall>c\<in>set x. \<not> is_slash c" using assms(2) by (auto simp: is_slash_def IsPathSeparator_def)
  have e: "elements is_slash (''.'' @ slash # x) = [''.'', x]"
    using f by (subst elements_append_sep)
      (simp_all add: is_slash_def elements_sep_free_single slash_def)
  have "Clean is_slash slash (''.'' @ slash # x) = x"
    using assms(1) e
    by (simp add: Clean_def clean_step_def render_def normal_element_def is_slash_def slash_def)
  then show ?thesis by (simp add: path_Join_def Join_def)
qed

lemma filepath_Clean_dot: "filepath_Clean ''.'' = ''.''"
  by code_simp

lemma layer_name_whiteout:
  assumes "layer_name n"
  shows "\<exists>db. whiteout_decode (export_whiteout_name n) = Some db \<and> removed_path db = n"
proof -
  let ?xs = "elements IsPathSeparator n"
  have ns: "slash \<notin> set n" and normal: "list_all normal_element ?xs"
    using assms by (simp_all add: layer_name_def)
  have free: "\<forall>y\<in>set ?xs. \<forall>c\<in>set y. \<not> IsPathSeparator c"
    using elements_sep_free_all by blast
  have n: "n = join_elems bslash ?xs"
    using ns by (subst join_elements) (auto simp: IsPathSeparator_def)
  have sb: "IsPathSeparator bslash" by (simp add: IsPathSeparator_def)
  obtain ys x where xs: "?xs = ys @ [x]"
    using elements_nonempty [of IsPathSeparator n] by (metis rev_exhaust)
  have x: "normal_element x" "\<forall>c\<in>set x. \<not> IsPathSeparator c" "x \<noteq> []"
    using normal free xs by (auto simp: normal_element_def)
  have cn: "filepath_Clean n = n"
    using Clean_join_normal [OF elements_nonempty normal free sb] n
    by (simp add: filepath_Clean_def)
  show ?thesis
  proof (cases "ys = []")
    case True
    then have nx: "n = x" using n xs by simp
    have "filepath_Dir n = ''.''"
      using split_last_append [OF x(2), of "[]"] nx
      by (simp add: filepath_Dir_def Dir_def Clean_def)
    moreover have "filepath_Base n = x"
      using Base_append [OF x(2) _ x(3), of "[]" bslash] nx by (simp add: filepath_Base_def)
    ultimately have "export_whiteout_name n = whiteout_name ''.'' x"
      by (simp add: export_whiteout_name_def)
    then have "whiteout_decode (export_whiteout_name n) = Some (ToSlash ''.'', x)"
      using whiteout_roundtrip [OF filepath_Clean_dot x(2)] by simp
    moreover have "ToSlash ''.'' = ''.''" by code_simp
    moreover have "removed_path (''.'', x) = n"
      using path_Join_dot [OF x(1,2)] nx ns by (simp add: removed_path_def FromSlash_id)
    ultimately show ?thesis by simp
  next
    case False
    let ?d = "join_elems bslash ys"
    have nd: "n = ?d @ bslash # x" using n xs False by (simp add: join_elems_snoc)
    have ysn: "list_all normal_element ys" "\<forall>y\<in>set ys. \<forall>c\<in>set y. \<not> IsPathSeparator c"
      using normal free xs by auto
    have cd: "filepath_Clean ?d = ?d"
      using Clean_join_normal [OF False ysn sb] by (simp add: filepath_Clean_def)
    have dne: "?d \<noteq> []" using cd Clean_nonempty [of IsPathSeparator bslash ?d]
      by (auto simp: filepath_Clean_def)
    have pre: "?d @ [bslash] = [] \<or> IsPathSeparator (last (?d @ [bslash]))" using sb by simp
    have "fst (split_last IsPathSeparator n) = ?d @ [bslash]"
      using split_last_append [OF x(2) pre] nd by simp
    then have "filepath_Dir n = ?d"
      using Clean_trailing_sep [of ?d IsPathSeparator bslash bslash] dne sb cd
      by (simp add: filepath_Dir_def Dir_def filepath_Clean_def)
    moreover have "filepath_Base n = x"
      using Base_append [OF x(2) pre x(3), of bslash] nd by (simp add: filepath_Base_def)
    ultimately have "export_whiteout_name n = whiteout_name ?d x"
      by (simp add: export_whiteout_name_def)
    then have dec: "whiteout_decode (export_whiteout_name n) = Some (ToSlash ?d, x)"
      using whiteout_roundtrip [OF cd x(2)] by simp
    have tx: "ToSlash x = x" using x(2) by (intro ToSlash_id) (auto simp: IsPathSeparator_def)
    have tne: "ToSlash ?d \<noteq> []" using dne by (simp add: ToSlash_def)
    have "path_Join [ToSlash ?d, x] = path_Clean (ToSlash ?d @ slash # x)"
      using tne by (cases "ToSlash ?d") (simp_all add: path_Join_def Join_def path_Clean_def)
    also have "\<dots> = path_Clean (ToSlash n)"
      using nd tx by (simp add: ToSlash_append ToSlash_bslash)
    also have "\<dots> = ToSlash n" using ToSlash_Clean [of n] cn by simp
    finally have "removed_path (ToSlash ?d, x) = n"
      using ns by (simp add: removed_path_def FromSlash_ToSlash)
    with dec show ?thesis by simp
  qed
qed

lemma writeTarFromLayer_quiet:
  "\<forall>tr ev. env tr ev = None \<Longrightarrow> \<forall>i. \<not> Done c i \<Longrightarrow>
   writeTarFromLayer env c i es EOF tr = (None, tr @ map entry_event es @ [TarClose])"
  by (induction es arbitrary: i tr) (simp_all add: call_def)

lemma ExportLayer_quiet:
  assumes "\<forall>tr ev. env tr ev = None" and "\<forall>i. \<not> Done c i"
  shows "ExportLayer env c (es, EOF) path ps =
    (None, opening_events path ps @ map entry_event es
             @ [TarClose, ReaderClose, DeactivateLayer path])"
proof -
  have "opened env path ps" using assms(1) by (simp add: opened_def)
  note o = ExportLayer_opened [OF this, of c es EOF]
  have w: "writeTarFromLayer env c 0 es EOF (opening_events path ps) =
      (None, opening_events path ps @ map entry_event es @ [TarClose])"
    by (rule writeTarFromLayer_quiet [OF assms])
  have r: "env (opening_events path ps @ map entry_event es @ [TarClose]) ReaderClose = None"
    using assms(1) by blast
  show ?thesis unfolding o w using r by simp
qed

lemma map_filter_append: "List.map_filter f (xs @ ys) = List.map_filter f xs @ List.map_filter f ys"
  by (simp add: List.map_filter_def)

lemma map_filter_entry_events:
  "List.map_filter (archive_entry cd) (map entry_event es) = map (entry_of cd) es"
  by (induction es)
    (auto simp: List.map_filter_def archive_entry_def entry_event_def entry_of_def
      split: option.splits)

lemma archive_entry_other [simp]:
  "archive_entry cd TarClose = None" "archive_entry cd ReaderClose = None"
  "archive_entry cd (DeactivateLayer path) = None" "archive_entry cd (ActivateLayer path) = None"
  "archive_entry cd (PrepareLayer path ps) = None" "archive_entry cd (UnprepareLayer path) = None"
  "archive_entry cd (NewLayerReader path ps) = None"
  by (simp_all add: archive_entry_def)

lemma archive_of_export:
  "archive_of cd (opening_events path ps @ map entry_event es
                   @ [TarClose, ReaderClose, DeactivateLayer path]) =
     (map (entry_of cd) es, EOF)"
proof -
  have a: "List.map_filter (archive_entry cd) (opening_events path ps) = []"
    by (simp add: List.map_filter_simps opening_events_def)
  have b: "List.map_filter (archive_entry cd) [TarClose, ReaderClose, DeactivateLayer path] = []"
    by (simp add: List.map_filter_simps)
  show ?thesis
    by (simp add: archive_of_def map_filter_append a b map_filter_entry_events
        del: append_Cons)
qed

lemma foldl_apply_sink_events:
  "sink_events s ws \<Longrightarrow>
     foldl apply_event (File n fi d0 # ops) ws = File n fi (d0 @ concat (writes ws)) # ops"
proof (induction ws arbitrary: d0)
  case Nil
  then show ?case by simp
next
  case (Cons ev ws)
  then have s: "sink_event s ev" "sink_events s ws" by (simp_all add: sink_events_def)
  from s(1) show ?case
    using Cons.IH [OF s(2)] by (cases ev) (simp_all add: sink_event_def)
qed

lemma quiet_weaken: "\<forall>tr ev. env tr ev = None \<Longrightarrow> \<forall>tr ev. ev \<noteq> Close \<longrightarrow> env tr ev = None"
  by simp

text \<open>The events of the body of a file fold into the file that was just added.\<close>

lemma tarToBackupStream_fold:
  assumes q: "\<forall>tr ev. env tr ev = None" and ce: "codec_err e = None"
  shows "\<exists>evs. (\<forall>nxt. tarToBackupStreamWithMutatedFiles env root e nxt tr = (nxt, tr @ evs))
           \<and> (\<forall>n fi ops. foldl apply_event (File n fi [] # ops) evs =
                            File n fi (concat (chunks e)) # ops)"
proof -
  note q' = quiet_weaken [OF q]
  obtain tr' where t: "\<And>nxt. tarToBackupStreamWithMutatedFiles env root e nxt tr = (nxt, tr')"
    using tarToBackupStream_quiet [OF q' ce] by blast
  note ev = tarToBackupStream_events [OF t [of None]]
  show ?thesis
  proof (cases "mutatedFiles (Name (hdr e))")
    case None
    with ev q' obtain ws where ws: "sink_events ToWriter ws" "tr' = tr @ ws"
      "concat (writes ws) = concat (chunks e)" by blast
    show ?thesis
      using t ws foldl_apply_sink_events [OF ws(1), of _ _ "[]"]
      by (intro exI [of _ ws]) simp
  next
    case (Some backupPath)
    let ?c = "Create (filepath_Join [root, backupPath])"
    from ev Some q q' obtain ws where ws: "sink_events ToBoth ws"
      "tr' = tr @ ?c # ws @ [BackupWriterClose, FileClose]"
      "concat (writes ws) = concat (chunks e)" by auto
    show ?thesis
      using t ws foldl_apply_sink_events [OF ws(1), of _ _ "[]"]
      by (intro exI [of _ "?c # ws @ [BackupWriterClose, FileClose]"]) simp
  qed
qed

lemma import_step_roundtrip:
  assumes q: "\<forall>tr ev. env tr ev = None" and rt: "round_trips cd"
    and ln: "layer_name (lname e)"
    and nw: "linfo e \<noteq> None \<longrightarrow> \<not> HasPrefix (path_Base (ToSlash (lname e))) whiteoutPrefix"
  shows "\<exists>evs. (\<forall>c i rest ending sz. \<not> Done c i \<longrightarrow>
             import_loop env (info_of cd) c root i (entry_of cd e # rest) ending sz tr =
             import_loop env (info_of cd) c root (Suc i) rest ending
               (sz + (case linfo e of None \<Rightarrow> 0 | Some fileInfo \<Rightarrow> lsize e)) (tr @ evs))
           \<and> (\<forall>ops. foldl apply_event ops evs = op_of e # ops)"
proof (cases "linfo e")
  case None
  obtain db where db: "whiteout_decode (export_whiteout_name (lname e)) = Some db"
      "removed_path db = lname e"
    using layer_name_whiteout [OF ln] by blast
  have h: "Name (hdr (entry_of cd e)) = export_whiteout_name (lname e)"
    using None by (simp add: entry_of_def whiteout_header_def)
  have "import_loop env (info_of cd) c root i (entry_of cd e # rest) ending sz tr =
        import_loop env (info_of cd) c root (Suc i) rest ending (sz + 0) (tr @ [Remove (lname e)])"
    if "\<not> Done c i" for c i rest ending sz
    using that h db q by (simp add: call_def)
  with None show ?thesis
    by (intro exI [of _ "[Remove (lname e)]"]) (simp add: op_of_def)
next
  case (Some fi)
  let ?h = "hdr_of cd (lname e) (lsize e) fi"
  let ?e = "entry_of cd e"
  have e: "hdr ?e = ?h" "chunks ?e = replay cd (ldata e)" "codec_err ?e = None"
    using Some by (simp_all add: entry_of_def)
  have laws: "Name ?h = ToSlash (lname e)" "Typeflag ?h \<noteq> TypeLink"
    "info_of cd ?h = Inr (ToSlash (lname e), lsize e, fi)"
    "concat (replay cd (ldata e)) = ldata e"
    using rt by (simp_all add: round_trips_def)
  have wd: "whiteout_decode (Name ?h) = None"
    using nw Some laws(1) by (simp add: whiteout_decode_None)
  have fs: "FromSlash (ToSlash (lname e)) = lname e"
    using ln by (simp add: layer_name_def FromSlash_ToSlash)
  let ?tr1 = "tr @ [Add (lname e) fi]"
  obtain tevs where t:
    "\<And>nxt. tarToBackupStreamWithMutatedFiles env root ?e nxt ?tr1 = (nxt, ?tr1 @ tevs)"
    "\<And>n fi ops. foldl apply_event (File n fi [] # ops) tevs =
                            File n fi (concat (chunks ?e)) # ops"
    using tarToBackupStream_fold [OF q e(3), of root ?tr1] by blast
  have "import_loop env (info_of cd) c root i (?e # rest) ending sz tr =
        import_loop env (info_of cd) c root (Suc i) rest ending (sz + lsize e)
          (tr @ Add (lname e) fi # tevs)"
    if "\<not> Done c i" for c i rest ending sz
    using that e(1) wd laws(2,3) fs q t(1) Next_err_cases [of rest ending]
    by (auto simp: call_def)
  moreover have "foldl apply_event ops (Add (lname e) fi # tevs) = op_of e # ops" for ops
    using t(2) e(2) laws(4) Some by (simp add: op_of_def)
  ultimately show ?thesis
    using Some by (intro exI [of _ "Add (lname e) fi # tevs"]) simp
qed

lemma import_loop_roundtrip:
  assumes q: "\<forall>tr ev. env tr ev = None" and rt: "round_trips cd" and nd: "\<forall>i. \<not> Done c i"
  shows "\<forall>e\<in>set es. layer_name (lname e)
            \<and> (linfo e \<noteq> None \<longrightarrow> \<not> HasPrefix (path_Base (ToSlash (lname e))) whiteoutPrefix) \<Longrightarrow>
    \<exists>evs. import_loop env (info_of cd) c root i (map (entry_of cd) es) EOF sz tr =
             ((sz + sum_list (map lsize (filter (\<lambda>e. linfo e \<noteq> None) es)), None), tr @ evs)
         \<and> (\<forall>ops. foldl apply_event ops evs = rev (map op_of es) @ ops)"
proof (induction es arbitrary: i sz tr)
  case Nil
  then show ?case using nd by simp
next
  case (Cons e es)
  have e: "layer_name (lname e)"
    "linfo e \<noteq> None \<longrightarrow> \<not> HasPrefix (path_Base (ToSlash (lname e))) whiteoutPrefix"
    using Cons.prems by simp_all
  obtain evs1 where s1:
    "\<And>c i rest ending sz. \<not> Done c i \<Longrightarrow>
       import_loop env (info_of cd) c root i (entry_of cd e # rest) ending sz tr =
       import_loop env (info_of cd) c root (Suc i) rest ending
         (sz + (case linfo e of None \<Rightarrow> 0 | Some fileInfo \<Rightarrow> lsize e)) (tr @ evs1)"
    "\<And>ops. foldl apply_event ops evs1 = op_of e # ops"
    using import_step_roundtrip [OF q rt e, of root tr] by blast
  let ?sz1 = "sz + (case linfo e of None \<Rightarrow> 0 | Some fileInfo \<Rightarrow> lsize e)"
  have rest: "\<forall>e\<in>set es. layer_name (lname e)
            \<and> (linfo e \<noteq> None \<longrightarrow> \<not> HasPrefix (path_Base (ToSlash (lname e))) whiteoutPrefix)"
    using Cons.prems by simp
  from Cons.IH [OF rest, of "Suc i" ?sz1 "tr @ evs1"] obtain evs2 where s2:
    "import_loop env (info_of cd) c root (Suc i) (map (entry_of cd) es) EOF ?sz1 (tr @ evs1) =
       ((?sz1 + sum_list (map lsize (filter (\<lambda>e. linfo e \<noteq> None) es)), None),
        (tr @ evs1) @ evs2)"
    "\<And>ops. foldl apply_event ops evs2 = rev (map op_of es) @ ops"
    by blast
  have sz: "?sz1 + sum_list (map lsize (filter (\<lambda>e. linfo e \<noteq> None) es)) =
            sz + sum_list (map lsize (filter (\<lambda>e. linfo e \<noteq> None) (e # es)))"
    by (cases "linfo e") (simp_all add: add.assoc)
  have "import_loop env (info_of cd) c root i (map (entry_of cd) (e # es)) EOF sz tr =
          ((sz + sum_list (map lsize (filter (\<lambda>e. linfo e \<noteq> None) (e # es))), None),
           tr @ evs1 @ evs2)"
    using s1(1) [of c i "map (entry_of cd) es" EOF sz] nd s2(1) sz by simp
  moreover have "foldl apply_event ops (evs1 @ evs2) = rev (map op_of (e # es)) @ ops" for ops
    using s1(2) s2(2) by simp
  ultimately show ?case by blast
qed


text \<open>
  Claim C1, as stated, fails for a file whose own name starts with the whiteout prefix.
  The exporter writes the file \<open>.wh.x\<close> as a regular entry of that name; the importer
  classifies entries by name alone, takes it for a deletion marker and tells the writer to
  remove \<open>x\<close>.  The import succeeds, with size 0, and the file is not added.
\<close>

theorem export_import_roundtrip_counterexample:
  "map op_of wh_named_layer = [File ''.wh.x'' no_info hi]
 \<and> layer_ops (snd (export_then_import all_ok all_ok plain_codec background wh_named_layer
                       ''L'' layer_path [])) = [Removed ''x'']
 \<and> fst (export_then_import all_ok all_ok plain_codec background wh_named_layer
          ''L'' layer_path []) = (0, None)"
  by code_simp

text \<open>
  Claim C1, amended.  Take any sequence of layer entries, regular entries and deletions,
  whose names are relative native paths in cleaned form and whose regular entries have a
  base name that does not start with the whiteout prefix; a codec that round-trips; no
  failing call and no cancellation.  Then exporting the layer and importing the archive
  into a new layer succeeds; the writer is told, in the order of the entries, to add every
  regular entry under its name with its file information and to write exactly its backup
  stream, and to remove the name of every deleted entry; and the returned size is the sum
  of the sizes of the regular entries.
\<close>

theorem export_import_roundtrip:
  assumes "\<forall>tr ev. envx tr ev = None" and "\<forall>tr ev. envi tr ev = None" and "\<forall>i. \<not> Done c i"
    and "round_trips cd"
    and "\<forall>e\<in>set es. layer_name (lname e)
            \<and> (linfo e \<noteq> None \<longrightarrow> \<not> HasPrefix (path_Base (ToSlash (lname e))) whiteoutPrefix)"
  shows "fst (export_then_import envx envi cd c es path layerPath parentLayerPaths) =
           (sum_list (map lsize (filter (\<lambda>e. linfo e \<noteq> None) es)), None)
       \<and> layer_ops (snd (export_then_import envx envi cd c es path layerPath parentLayerPaths)) =
           map op_of es"
proof -
  obtain home ident where sp: "filepath_Split layerPath = (home, ident)" by (metis prod.exhaust)
  let ?tr1 = "[NewLayerWriter home ident parentLayerPaths]"
  obtain evs where l:
    "import_loop envi (info_of cd) c layerPath 0 (map (entry_of cd) es) EOF 0 ?tr1 =
       ((0 + sum_list (map lsize (filter (\<lambda>e. linfo e \<noteq> None) es)), None), ?tr1 @ evs)"
    "\<And>ops. foldl apply_event ops evs = rev (map op_of es) @ ops"
    using import_loop_roundtrip [OF assms(2,4,3,5), of layerPath 0 0 ?tr1] by blast
  have a: "archive_of cd (snd (ExportLayer envx c (es, EOF) path parentLayerPaths)) =
             (map (entry_of cd) es, EOF)"
    by (simp add: ExportLayer_quiet [OF assms(1,3)] archive_of_export del: append_Cons)
  have r: "export_then_import envx envi cd c es path layerPath parentLayerPaths =
      ((sum_list (map lsize (filter (\<lambda>e. linfo e \<noteq> None) es)), None),
       ?tr1 @ evs @ [Close])"
    using sp l(1) assms(2)
    by (simp add: export_then_import_def a ImportLayer_def call_def)
  show ?thesis
    unfolding r by (simp add: layer_ops_def l(2))
qed

theorem export_import_roundtrip_witness:
  "fst (export_then_import all_ok all_ok plain_codec background nested_layer
          ''L'' layer_path []) = (2, None)
 \<and> layer_ops (snd (export_then_import all_ok all_ok plain_codec background nested_layer
                       ''L'' layer_path [])) =
     [File (''Files'' @ [bslash] @ ''a.txt'') some_info hi,
      Removed (''Files'' @ [bslash] @ ''b.txt''), Removed ''c.txt'']"
proof -
  have h1: "\<forall>tr ev. all_ok tr ev = None" by (simp add: all_ok_def)
  have h3: "\<forall>i. \<not> Done background i" by (simp add: background_def)
  have h4: "round_trips plain_codec"
    by (simp add: round_trips_def plain_codec_def basic_fih_def TypeReg_def TypeLink_def)
  have h5: "\<forall>e\<in>set nested_layer. layer_name (lname e)
            \<and> (linfo e \<noteq> None \<longrightarrow> \<not> HasPrefix (path_Base (ToSlash (lname e))) whiteoutPrefix)"
    by code_simp
  have s: "sum_list (map lsize (filter (\<lambda>e. linfo e \<noteq> None) nested_layer)) = 2"
    by (simp add: nested_layer_def)
  have m: "map op_of nested_layer =
     [File (''Files'' @ [bslash] @ ''a.txt'') some_info hi,
      Removed (''Files'' @ [bslash] @ ''b.txt''), Removed ''c.txt'']"
    by (simp add: nested_layer_def op_of_def)
  show ?thesis
    using export_import_roundtrip [OF h1 h1 h3 h4 h5, of "''L''" layer_path "[]"] s m
    by simp
qed

section \<open>Properties of a cancelled import\<close>








section \<open>Properties of the whiteout names as the exporter builds them\<close>












end
